theory Spec2Isabelle
  imports Complex_Main "HOL-Library.Word"
begin

unbundle bit_operations_syntax

section \<open>IEEE-754 binary32 values\<close>

text \<open>
  A C++ \<open>float\<close> is modelled by its 32-bit pattern: bit 31 is the sign, bits 30..23 the
  biased exponent, bits 22..0 the fraction. Every 32-bit word is a float, so a statement
  about all words is a statement about all floats, NaNs, infinities, subnormals and both
  zeros included. The header requires this format
  (\<open>static_assert(std::numeric_limits<float>::is_iec559)\<close>).
\<close>

type_synonym float32 = "32 word"

definition mag :: "float32 \<Rightarrow> nat" where
  \<comment> \<open>the 31 bits below the sign: exponent and fraction\<close>
  "mag w = unat w mod 2 ^ 31"

definition sign_bit :: "float32 \<Rightarrow> bool" where
  "sign_bit w = (2 ^ 31 \<le> unat w)"

definition is_nan :: "float32 \<Rightarrow> bool" where
  \<comment> \<open>exponent all ones, fraction not zero\<close>
  "is_nan w = (0x7F800000 < mag w)"

definition is_inf :: "float32 \<Rightarrow> bool" where
  "is_inf w = (mag w = 0x7F800000)"

definition is_finite :: "float32 \<Rightarrow> bool" where
  "is_finite w = (mag w < 0x7F800000)"

definition key :: "float32 \<Rightarrow> int" where
  \<comment> \<open>Floats that are not NaN are ordered as sign-magnitude integers; both zeros get 0.\<close>
  "key w = (if sign_bit w then - int (mag w) else int (mag w))"

definition flt :: "float32 \<Rightarrow> float32 \<Rightarrow> bool" where
  \<comment> \<open>C++ \<open>x < y\<close> on floats: false as soon as one side is NaN\<close>
  "flt x y = (\<not> is_nan x \<and> \<not> is_nan y \<and> key x < key y)"

definition fle :: "float32 \<Rightarrow> float32 \<Rightarrow> bool" where
  \<comment> \<open>C++ \<open>x <= y\<close> on floats\<close>
  "fle x y = (\<not> is_nan x \<and> \<not> is_nan y \<and> key x \<le> key y)"

definition feq :: "float32 \<Rightarrow> float32 \<Rightarrow> bool" where
  \<comment> \<open>C++ \<open>x == y\<close> on floats: \<open>-0 == +0\<close>, and NaN equals nothing\<close>
  "feq x y = (\<not> is_nan x \<and> \<not> is_nan y \<and> key x = key y)"

definition fneg :: "float32 \<Rightarrow> float32" where
  \<comment> \<open>unary minus flips the sign bit, also of a NaN\<close>
  "fneg w = w XOR 0x80000000"

definition qNaN :: float32 where
  \<comment> \<open>\<open>std::numeric_limits<float>::quiet_NaN()\<close>\<close>
  "qNaN = 0x7FC00000"

definition pInf :: float32 where
  \<comment> \<open>\<open>std::numeric_limits<float>::infinity()\<close>\<close>
  "pInf = 0x7F800000"

section \<open>IEEE-754 binary32 arithmetic\<close>

text \<open>
  The builtin operators \<open>+\<close>, \<open>-\<close>, \<open>*\<close>, \<open>/\<close> and \<open>sqrtf\<close> on \<open>float\<close>, in the default
  rounding mode (round to nearest, ties to even). A finite float is the dyadic number
  \<open>\<plusminus> mant * 2 ^ expt\<close>; an operation computes its exact result as such a number and rounds
  it once. Every NaN result is the quiet NaN \<open>0x7FC00000\<close>: the payload and sign of a NaN
  are not modelled. The operations are kept separate: no fused multiply-add.
\<close>

fun bitlen :: "nat \<Rightarrow> nat" where
  \<comment> \<open>number of bits of \<open>n\<close>: the least \<open>k\<close> with \<open>n < 2 ^ k\<close>\<close>
  "bitlen n = (if n = 0 then 0 else Suc (bitlen (n div 2)))"

declare bitlen.simps [simp del]

definition mant :: "float32 \<Rightarrow> nat" where
  \<comment> \<open>significand of a finite float as an integer: subnormals have no hidden bit\<close>
  "mant w = (if mag w < 2 ^ 23 then mag w else 2 ^ 23 + mag w mod 2 ^ 23)"

definition expt :: "float32 \<Rightarrow> int" where
  \<comment> \<open>exponent of the last significand bit\<close>
  "expt w = (if mag w < 2 ^ 23 then - 149 else int (mag w div 2 ^ 23) - 150)"

definition sval :: "float32 \<Rightarrow> int" where
  \<comment> \<open>signed significand\<close>
  "sval w = (if sign_bit w then - int (mant w) else int (mant w))"

definition valof :: "float32 \<Rightarrow> real" where
  \<comment> \<open>the real number a finite float stands for\<close>
  "valof w = real_of_int (sval w) * 2 powi expt w"

definition absval :: "float32 \<Rightarrow> real" where
  \<comment> \<open>its absolute value\<close>
  "absval w = real (mant w) * 2 powi expt w"

definition mk_float :: "bool \<Rightarrow> nat \<Rightarrow> float32" where
  \<comment> \<open>the float with the given sign and magnitude bits\<close>
  "mk_float s m = word_of_nat (if s then 2 ^ 31 + m else m)"

definition rne_div :: "nat \<Rightarrow> nat \<Rightarrow> nat" where
  \<comment> \<open>\<open>M / D\<close> rounded to the nearest integer, ties to the even one\<close>
  "rne_div M D = (if D div 2 < M mod D \<or> (M mod D = D div 2 \<and> odd (M div D))
                  then M div D + 1 else M div D)"

definition scale_rne :: "nat \<Rightarrow> int \<Rightarrow> nat" where
  \<comment> \<open>\<open>M / 2 ^ d\<close> as an integer: exact when \<open>d \<le> 0\<close>, rounded otherwise\<close>
  "scale_rne M d = (if d \<le> 0 then M * 2 ^ nat (- d) else rne_div M (2 ^ nat d))"

definition quantum :: "nat \<Rightarrow> int \<Rightarrow> int" where
  \<comment> \<open>exponent of the last kept bit of \<open>M * 2 ^ e\<close>: 24 significant bits, never below \<open>2 ^ -149\<close>\<close>
  "quantum M e = max (int (bitlen M) + e - 24) (- 149)"

definition round_mag :: "nat \<Rightarrow> int \<Rightarrow> nat" where
  \<comment> \<open>Magnitude bits of \<open>M * 2 ^ e\<close> rounded to binary32. With \<open>q\<close> the quantum and \<open>R\<close> the
      rounded significand, the bits are \<open>(q + 149) * 2 ^ 23 + R\<close>: the hidden bit of \<open>R\<close> adds
      one to the exponent field, and so does a carry out of the significand. What reaches
      the pattern of infinity is infinity.\<close>
  "round_mag M e =
     (if M = 0 then 0
      else min (nat (quantum M e + 149) * 2 ^ 23 + scale_rne M (quantum M e - e)) 0x7F800000)"

definition fround :: "bool \<Rightarrow> nat \<Rightarrow> int \<Rightarrow> float32" where
  \<comment> \<open>the float nearest to \<open>\<plusminus> M * 2 ^ e\<close>\<close>
  "fround s M e = mk_float s (round_mag M e)"

definition float_of_nat :: "nat \<Rightarrow> float32" where
  \<comment> \<open>the conversion of a non-negative \<open>int\<close> to \<open>float\<close>, as for the arguments of
      \<open>Mat2D::fromScale(2, 4)\<close>: the nearest float\<close>
  "float_of_nat n = fround False n 0"

definition fround_int :: "bool \<Rightarrow> int \<Rightarrow> int \<Rightarrow> float32" where
  \<comment> \<open>the float nearest to \<open>s * 2 ^ e\<close> for a signed \<open>s\<close>; an exact zero gets the sign \<open>z\<close>\<close>
  "fround_int z s e = (if s = 0 then mk_float z 0 else fround (s < 0) (nat \<bar>s\<bar>) e)"

definition fadd :: "float32 \<Rightarrow> float32 \<Rightarrow> float32" where
  \<comment> \<open>\<open>x + y\<close>. An exact zero sum is \<open>+0\<close> unless both operands are negative zeros.\<close>
  "fadd x y =
     (if is_nan x \<or> is_nan y then qNaN
      else if is_inf x then (if is_inf y \<and> sign_bit x \<noteq> sign_bit y then qNaN else x)
      else if is_inf y then y
      else fround_int (sign_bit x \<and> sign_bit y)
             (sval x * 2 ^ nat (expt x - min (expt x) (expt y))
              + sval y * 2 ^ nat (expt y - min (expt x) (expt y)))
             (min (expt x) (expt y)))"

definition fsub :: "float32 \<Rightarrow> float32 \<Rightarrow> float32" where
  \<comment> \<open>\<open>x - y\<close>\<close>
  "fsub x y = fadd x (fneg y)"

definition fmul :: "float32 \<Rightarrow> float32 \<Rightarrow> float32" where
  \<comment> \<open>\<open>x * y\<close>\<close>
  "fmul x y =
     (if is_nan x \<or> is_nan y then qNaN
      else if is_inf x \<or> is_inf y
           then (if mag x = 0 \<or> mag y = 0 then qNaN
                 else mk_float (sign_bit x \<noteq> sign_bit y) 0x7F800000)
      else fround (sign_bit x \<noteq> sign_bit y) (mant x * mant y) (expt x + expt y))"

fun isqrt_aux :: "nat \<Rightarrow> nat \<Rightarrow> nat \<Rightarrow> nat" where
  \<comment> \<open>binary search for the integer square root, one bit per step from bit \<open>k - 1\<close> down\<close>
  "isqrt_aux k n r =
     (if k = 0 then r
      else if (r + 2 ^ (k - 1)) * (r + 2 ^ (k - 1)) \<le> n
           then isqrt_aux (k - 1) n (r + 2 ^ (k - 1))
      else isqrt_aux (k - 1) n r)"

declare isqrt_aux.simps [simp del]

definition isqrt :: "nat \<Rightarrow> nat" where
  \<comment> \<open>the integer square root, rounded down\<close>
  "isqrt n = isqrt_aux ((bitlen n + 1) div 2) n 0"

definition sticky :: "nat \<Rightarrow> bool \<Rightarrow> nat" where
  \<comment> \<open>a truncated result \<open>q\<close> with one more bit that records whether anything was cut off;
      with more than 26 bits in \<open>q\<close> this rounds as the exact result does\<close>
  "sticky q inexact = 2 * q + (if inexact then 1 else 0)"

definition fsqrt :: "float32 \<Rightarrow> float32" where
  \<comment> \<open>\<open>sqrtf(x)\<close>: NaN below zero, \<open>\<plusminus>0\<close> and \<open>+Inf\<close> are returned as they are. The
      significand is scaled by \<open>2 ^ 52\<close> or \<open>2 ^ 53\<close> so that the exponent is even.\<close>
  "fsqrt x =
     (if is_nan x then qNaN
      else if mag x = 0 then x
      else if sign_bit x then qNaN
      else if is_inf x then x
      else fround False
             (sticky (isqrt (mant x * 2 ^ (if even (expt x) then 52 else 53)))
                     (isqrt (mant x * 2 ^ (if even (expt x) then 52 else 53))
                        * isqrt (mant x * 2 ^ (if even (expt x) then 52 else 53))
                      \<noteq> mant x * 2 ^ (if even (expt x) then 52 else 53)))
             ((expt x - (if even (expt x) then 52 else 53)) div 2 - 1))"

definition fdiv :: "float32 \<Rightarrow> float32 \<Rightarrow> float32" where
  \<comment> \<open>\<open>x / y\<close>, as \<open>math::ieee_float_divide\<close> documents it: \<open>\<plusminus>Inf\<close> when \<open>y\<close> is zero,
      zero when \<open>y\<close> is infinite, NaN for \<open>0 / 0\<close>, \<open>Inf / Inf\<close> and NaN operands\<close>
  "fdiv x y =
     (if is_nan x \<or> is_nan y then qNaN
      else if is_inf x
           then (if is_inf y then qNaN else mk_float (sign_bit x \<noteq> sign_bit y) 0x7F800000)
      else if is_inf y then mk_float (sign_bit x \<noteq> sign_bit y) 0
      else if mag y = 0
           then (if mag x = 0 then qNaN else mk_float (sign_bit x \<noteq> sign_bit y) 0x7F800000)
      else fround (sign_bit x \<noteq> sign_bit y)
             (sticky (mant x * 2 ^ 64 div mant y) (mant x * 2 ^ 64 mod mant y \<noteq> 0))
             (expt x - expt y - 65))"

definition f_one :: float32 where
  \<comment> \<open>\<open>1.0f\<close>\<close>
  "f_one = 0x3F800000"

definition f_two :: float32 where
  \<comment> \<open>\<open>2.0f\<close>\<close>
  "f_two = 0x40000000"

definition f_four :: float32 where
  \<comment> \<open>\<open>4.0f\<close>\<close>
  "f_four = 0x40800000"

section \<open>simd.hpp: vectors and lanes\<close>

text \<open>
  \<open>gvec<T, N>\<close> is a list of \<open>N\<close> lanes. The headers instantiate \<open>T\<close> with
  \<open>float\<close>, \<open>int32_t\<close> and \<open>uint32_t\<close>; all three are 32 bits wide, so a lane is a
  32-bit word and the template parameter \<open>T\<close> becomes the argument that selects how the
  builtin operators read it.
\<close>

datatype elem = Float | Int32 | UInt32

type_synonym gvec = "32 word list"

definition lane_lt :: "elem \<Rightarrow> 32 word \<Rightarrow> 32 word \<Rightarrow> bool" where
  \<comment> \<open>the builtin \<open><\<close> of the lane type\<close>
  "lane_lt T x y = (case T of Float \<Rightarrow> flt x y | Int32 \<Rightarrow> sint x < sint y | UInt32 \<Rightarrow> unat x < unat y)"

definition lane_eq :: "elem \<Rightarrow> 32 word \<Rightarrow> 32 word \<Rightarrow> bool" where
  \<comment> \<open>the builtin \<open>==\<close> of the lane type\<close>
  "lane_eq T x y = (case T of Float \<Rightarrow> feq x y | Int32 \<Rightarrow> x = y | UInt32 \<Rightarrow> x = y)"

definition lane_neg :: "elem \<Rightarrow> 32 word \<Rightarrow> 32 word" where
  \<comment> \<open>the builtin unary minus of the lane type; on integer lanes it wraps modulo \<open>2 ^ 32\<close>\<close>
  "lane_neg T x = (case T of Float \<Rightarrow> fneg x | Int32 \<Rightarrow> - x | UInt32 \<Rightarrow> - x)"

definition vtrue :: "32 word" where
  \<comment> \<open>"Vector booleans are of type int32_t, where true is ~0 and false is 0."\<close>
  "vtrue = NOT 0"

definition vbool :: "bool \<Rightarrow> 32 word" where
  "vbool c = (if c then vtrue else 0)"

definition vlt :: "elem \<Rightarrow> gvec \<Rightarrow> gvec \<Rightarrow> gvec" where
  \<comment> \<open>\<open>a < b\<close> on vectors: a vector boolean per lane\<close>
  "vlt T a b = map2 (\<lambda>x y. vbool (lane_lt T x y)) a b"

definition veq :: "elem \<Rightarrow> gvec \<Rightarrow> gvec \<Rightarrow> gvec" where
  \<comment> \<open>\<open>a == b\<close> on vectors\<close>
  "veq T a b = map2 (\<lambda>x y. vbool (lane_eq T x y)) a b"

definition vnot :: "gvec \<Rightarrow> gvec" where
  \<comment> \<open>\<open>!x\<close> on a vector: true where the lane is zero\<close>
  "vnot x = map (\<lambda>l. vbool (l = 0)) x"

definition vor :: "gvec \<Rightarrow> gvec \<Rightarrow> gvec" where
  \<comment> \<open>\<open>a || b\<close> on vectors: true where either lane is not zero\<close>
  "vor a b = map2 (\<lambda>x y. vbool (x \<noteq> 0 \<or> y \<noteq> 0)) a b"

definition vand :: "gvec \<Rightarrow> gvec \<Rightarrow> gvec" where
  \<comment> \<open>\<open>a && b\<close> on vectors: true where both lanes are not zero\<close>
  "vand a b = map2 (\<lambda>x y. vbool (x \<noteq> 0 \<and> y \<noteq> 0)) a b"

definition vneg :: "elem \<Rightarrow> gvec \<Rightarrow> gvec" where
  \<comment> \<open>\<open>-x\<close> on vectors\<close>
  "vneg T x = map (lane_neg T) x"

definition splat :: "nat \<Rightarrow> 32 word \<Rightarrow> gvec" where
  \<comment> \<open>a scalar operand of a vector operator is broadcast to every lane\<close>
  "splat n c = replicate n c"

fun any :: "gvec \<Rightarrow> bool" where
  \<comment> \<open>\<open>for (i < N) if (x[i]) return true; return false;\<close>\<close>
  "any [] = False"
| "any (l # ls) = (if l \<noteq> 0 then True else any ls)"

definition all :: "gvec \<Rightarrow> bool" where
  \<comment> \<open>\<open>return !any(~x);\<close>\<close>
  "all x = (\<not> any (map (\<lambda>l. NOT l) x))"

definition isnan :: "elem \<Rightarrow> gvec \<Rightarrow> gvec" where
  \<comment> \<open>floating point: \<open>return !(x == x);\<close>  integral: \<open>return {};\<close>\<close>
  "isnan T x = (case T of Float \<Rightarrow> vnot (veq Float x x) | Int32 \<Rightarrow> map (\<lambda>_. 0) x | UInt32 \<Rightarrow> map (\<lambda>_. 0) x)"

fun if_then_else :: "gvec \<Rightarrow> gvec \<Rightarrow> gvec \<Rightarrow> gvec" where
  \<comment> \<open>\<open>for (i < N) ret[i] = _if[i] ? _then[i] : _else[i];\<close>\<close>
  "if_then_else (c # cs) (t # ts) (e # es) = (if c \<noteq> 0 then t else e) # if_then_else cs ts es"
| "if_then_else _ _ _ = []"

definition min_simd :: "elem \<Rightarrow> gvec \<Rightarrow> gvec \<Rightarrow> gvec" where
  \<comment> \<open>\<open>return if_then_else(b < a || isnan(a), b, a);\<close>\<close>
  "min_simd T a b = if_then_else (vor (vlt T b a) (isnan T a)) b a"

definition max_simd :: "elem \<Rightarrow> gvec \<Rightarrow> gvec \<Rightarrow> gvec" where
  \<comment> \<open>\<open>return if_then_else(a < b || isnan(a), b, a);\<close>\<close>
  "max_simd T a b = if_then_else (vor (vlt T a b) (isnan T a)) b a"

definition clamp :: "elem \<Rightarrow> gvec \<Rightarrow> gvec \<Rightarrow> gvec \<Rightarrow> gvec" where
  \<comment> \<open>\<open>return min(max(lo, x), hi);\<close>\<close>
  "clamp T x lo hi = min_simd T (max_simd T lo x) hi"

definition abs_simd :: "elem \<Rightarrow> gvec \<Rightarrow> gvec" where
  \<comment> \<open>\<open>return if_then_else(x < 0, -x, x);\<close>\<close>
  "abs_simd T x = if_then_else (vlt T x (splat (length x) 0)) (vneg T x) x"

text \<open>
  What \<open>min\<close> and \<open>max\<close> do to one lane, used to state the lane-wise lemmas below.
\<close>

definition min_lane :: "elem \<Rightarrow> 32 word \<Rightarrow> 32 word \<Rightarrow> 32 word" where
  "min_lane T a b = (if lane_lt T b a \<or> (T = Float \<and> is_nan a) then b else a)"

definition max_lane :: "elem \<Rightarrow> 32 word \<Rightarrow> 32 word \<Rightarrow> 32 word" where
  "max_lane T a b = (if lane_lt T a b \<or> (T = Float \<and> is_nan a) then b else a)"

definition vle :: "elem \<Rightarrow> gvec \<Rightarrow> gvec \<Rightarrow> gvec" where
  \<comment> \<open>\<open>a <= b\<close> on vectors\<close>
  "vle T a b = map2 (\<lambda>x y. vbool (case T of Float \<Rightarrow> fle x y | Int32 \<Rightarrow> sint x \<le> sint y
                                        | UInt32 \<Rightarrow> unat x \<le> unat y)) a b"

definition vadd :: "gvec \<Rightarrow> gvec \<Rightarrow> gvec" where
  \<comment> \<open>\<open>a + b\<close> on float vectors\<close>
  "vadd a b = map2 fadd a b"

definition vsub :: "gvec \<Rightarrow> gvec \<Rightarrow> gvec" where
  \<comment> \<open>\<open>a - b\<close> on float vectors\<close>
  "vsub a b = map2 fsub a b"

definition vmul :: "gvec \<Rightarrow> gvec \<Rightarrow> gvec" where
  \<comment> \<open>\<open>a * b\<close> on float vectors\<close>
  "vmul a b = map2 fmul a b"

text \<open>
  \<open>mix\<close> starts with an \<open>assert\<close>. The first argument of the model says whether the
  build defines \<open>NDEBUG\<close>: without it a failed assertion aborts, which is the result
  \<open>None\<close>; with it the assertion is compiled out.
\<close>

definition mix :: "bool \<Rightarrow> gvec \<Rightarrow> gvec \<Rightarrow> float32 \<Rightarrow> gvec option" where
  \<comment> \<open>\<open>assert(0 <= t && t < 1); return (b - a) * t + a;\<close>\<close>
  "mix ndebug a b t =
     (if \<not> ndebug \<and> \<not> (fle 0 t \<and> flt t f_one) then None
      else Some (vadd (vmul (vsub b a) (splat (length a) t)) a))"

definition mix_v :: "bool \<Rightarrow> gvec \<Rightarrow> gvec \<Rightarrow> gvec \<Rightarrow> gvec option" where
  \<comment> \<open>the overload with a vector \<open>t\<close>:
      \<open>assert(simd::all(0 <= t && t < 1)); return (b - a) * t + a;\<close>\<close>
  "mix_v ndebug a b t =
     (if \<not> ndebug
         \<and> \<not> all (vand (vle Float (splat (length t) 0) t) (vlt Float t (splat (length t) f_one)))
      then None
      else Some (vadd (vmul (vsub b a) t) a))"

section \<open>math_types.hpp\<close>

definition EPSILON :: float32 where
  \<comment> \<open>\<open>constexpr float EPSILON = 1.f / (1 << 12);\<close> that is \<open>2 ^ -12\<close>\<close>
  "EPSILON = 0x39800000"

definition fabsf :: "float32 \<Rightarrow> float32" where
  \<comment> \<open>\<open>fabsf\<close> of \<open>cmath\<close>: the sign bit is cleared, also on a NaN\<close>
  "fabsf w = w AND 0x7FFFFFFF"

definition nearly_zero :: "bool \<Rightarrow> float32 \<Rightarrow> float32 \<Rightarrow> bool option" where
  \<comment> \<open>\<open>inline bool nearly_zero(float a, float tolerance = EPSILON)\<close>:
      \<open>assert(tolerance >= 0); return fabsf(a) <= tolerance;\<close> The assertion is compiled
      out under \<open>NDEBUG\<close>; a failed assertion aborts, which is \<open>None\<close>.\<close>
  "nearly_zero ndebug a tolerance =
     (if \<not> ndebug \<and> \<not> fle 0 tolerance then None else Some (fle (fabsf a) tolerance))"

definition nearly_equal :: "bool \<Rightarrow> float32 \<Rightarrow> float32 \<Rightarrow> float32 \<Rightarrow> bool option" where
  \<comment> \<open>\<open>inline bool nearly_equal(float a, float b, float tolerance = EPSILON)\<close>:
      \<open>return nearly_zero(b - a, tolerance);\<close>\<close>
  "nearly_equal ndebug a b tolerance = nearly_zero ndebug (fsub b a) tolerance"

definition lerp :: "float32 \<Rightarrow> float32 \<Rightarrow> float32 \<Rightarrow> float32" where
  \<comment> \<open>\<open>template <typename T> T lerp(const T& a, const T& b, float t): return a + (b - a) * t;\<close>
      at \<open>T = float\<close>\<close>
  "lerp a b t = fadd a (fmul (fsub b a) t)"

section \<open>Mat2D and findMaxScale\<close>

text \<open>
  The test includes \<open>rive/math/mat2d.hpp\<close> and calls \<open>Mat2D::findMaxScale\<close>,
  \<open>Mat2D::fromScale\<close>, \<open>Mat2D::fromRotation\<close>, \<open>Mat2D::fromTranslate\<close> and
  \<open>operator*\<close>; the class and these functions are not
  among the sources, so they follow the specification.

  Modelled from the spec: the class \<open>Mat2D\<close>. "Six scalar floats \<open>(a, b, c, d, tx, ty)\<close>
  representing the linear map \<open>[[a, c], [b, d]]\<close> plus translation \<open>(tx, ty)\<close>", in the
  order of the six-argument constructor the test calls. The entry type is a parameter:
  \<open>float32\<close> for the program, \<open>real\<close> for the same formulas in exact arithmetic.
\<close>

datatype 'a mat2d = Mat2D 'a 'a 'a 'a 'a 'a

definition identity :: "float32 mat2d" where
  \<comment> \<open>Modelled from the spec: the default-constructed \<open>Mat2D\<close>, the identity matrix.\<close>
  "identity = Mat2D f_one 0 0 f_one 0 0"

definition fromScale :: "float32 \<Rightarrow> float32 \<Rightarrow> float32 mat2d" where
  \<comment> \<open>Modelled from the spec: \<open>Mat2D::fromScale\<close>, the pure scale \<open>Scale(sx, sy)\<close>.\<close>
  "fromScale sx sy = Mat2D sx 0 0 sy 0 0"

definition fromTranslate :: "float32 \<Rightarrow> float32 \<Rightarrow> float32 mat2d" where
  \<comment> \<open>Modelled from the spec: \<open>Mat2D::fromTranslate\<close>, the pure translation.\<close>
  "fromTranslate x y = Mat2D f_one 0 0 f_one x y"

definition fromRotation :: "float32 \<Rightarrow> float32 \<Rightarrow> float32 mat2d" where
  \<comment> \<open>Modelled from the spec: \<open>Mat2D::fromRotation\<close>, the pure rotation \<open>Rotation(\<theta>)\<close>.
      The cosine and the sine come from the C library, which is not among the sources:
      the two floats it returns for the angle are the arguments \<open>c\<close> and \<open>s\<close>.\<close>
  "fromRotation c s = Mat2D c s (fneg s) c 0 0"

fun multiply :: "float32 mat2d \<Rightarrow> float32 mat2d \<Rightarrow> float32 mat2d" where
  \<comment> \<open>Modelled from the spec: \<open>operator*\<close>, the composition of two affine maps, with
      the linear map \<open>[[a, c], [b, d]]\<close> and the translation \<open>(tx, ty)\<close> of each.\<close>
  "multiply (Mat2D a0 a1 a2 a3 a4 a5) (Mat2D b0 b1 b2 b3 b4 b5) =
     Mat2D (fadd (fmul a0 b0) (fmul a2 b1))
           (fadd (fmul a1 b0) (fmul a3 b1))
           (fadd (fmul a0 b2) (fmul a2 b3))
           (fadd (fmul a1 b2) (fmul a3 b3))
           (fadd (fadd (fmul a0 b4) (fmul a2 b5)) a4)
           (fadd (fadd (fmul a1 b4) (fmul a3 b5)) a5)"

definition eigen_max :: "float32 \<Rightarrow> float32 \<Rightarrow> float32 \<Rightarrow> float32" where
  \<comment> \<open>Modelled from the spec: step 2 of the algorithm of \<open>findMaxScale\<close>. "Trace
      \<open>T = S00 + S11\<close>, determinant-like discriminant from \<open>T\<^sup>2 - 4 det(S)\<close>, eigenvalues
      \<open>(T \<plusminus> sqrt(discriminant)) / 2\<close>"; this is the larger one.\<close>
  "eigen_max s00 s01 s11 =
     fdiv (fadd (fadd s00 s11)
                (fsqrt (fsub (fmul (fadd s00 s11) (fadd s00 s11))
                             (fmul f_four (fsub (fmul s00 s11) (fmul s01 s01))))))
          f_two"

definition clamp_scale :: "float32 \<Rightarrow> float32" where
  \<comment> \<open>Modelled from the spec: steps 3 and 4. "Return the non-negative square root of the
      larger eigenvalue, clamped to 0 if the computed eigenvalue is negative or non-finite";
      an overflow upstream arrives here as an infinity or a NaN.\<close>
  "clamp_scale l = (if \<not> is_finite l \<or> flt l 0 then 0 else fsqrt l)"

fun findMaxScale :: "float32 mat2d \<Rightarrow> float32" where
  \<comment> \<open>Modelled from the spec: \<open>Mat2D::findMaxScale\<close>. Step 1 forms
      \<open>S = [[a\<^sup>2 + b\<^sup>2, ac + bd], [ac + bd, c\<^sup>2 + d\<^sup>2]]\<close>; the translation is not read.\<close>
  "findMaxScale (Mat2D a b c d tx ty) =
     clamp_scale (eigen_max (fadd (fmul a a) (fmul b b))
                            (fadd (fmul a c) (fmul b d))
                            (fadd (fmul c c) (fmul d d)))"

text \<open>The same algorithm in exact real arithmetic, where nothing overflows or rounds.\<close>

definition fromScale_exact :: "real \<Rightarrow> real \<Rightarrow> real mat2d" where
  \<comment> \<open>Modelled from the spec: \<open>Scale(sx, sy)\<close> with real entries.\<close>
  "fromScale_exact sx sy = Mat2D sx 0 0 sy 0 0"

definition identity_exact :: "real mat2d" where
  \<comment> \<open>Modelled from the spec: the identity matrix with real entries.\<close>
  "identity_exact = Mat2D 1 0 0 1 0 0"

definition fromRotation_exact :: "real \<Rightarrow> real mat2d" where
  \<comment> \<open>Modelled from the spec: \<open>Rotation(\<theta>)\<close> with the real cosine and sine.\<close>
  "fromRotation_exact \<theta> = Mat2D (cos \<theta>) (sin \<theta>) (- sin \<theta>) (cos \<theta>) 0 0"

fun multiply_exact :: "real mat2d \<Rightarrow> real mat2d \<Rightarrow> real mat2d" where
  \<comment> \<open>Modelled from the spec: the composition of two affine maps with real entries.\<close>
  "multiply_exact (Mat2D a0 a1 a2 a3 a4 a5) (Mat2D b0 b1 b2 b3 b4 b5) =
     Mat2D (a0 * b0 + a2 * b1) (a1 * b0 + a3 * b1) (a0 * b2 + a2 * b3) (a1 * b2 + a3 * b3)
           (a0 * b4 + a2 * b5 + a4) (a1 * b4 + a3 * b5 + a5)"

definition eigen_max_exact :: "real \<Rightarrow> real \<Rightarrow> real \<Rightarrow> real" where
  \<comment> \<open>Modelled from the spec: step 2 in exact arithmetic.\<close>
  "eigen_max_exact s00 s01 s11 =
     ((s00 + s11) + sqrt ((s00 + s11) * (s00 + s11) - 4 * (s00 * s11 - s01 * s01))) / 2"

definition clamp_scale_exact :: "real \<Rightarrow> real" where
  \<comment> \<open>Modelled from the spec: step 4 in exact arithmetic; every real is finite.\<close>
  "clamp_scale_exact l = (if l < 0 then 0 else sqrt l)"

fun findMaxScale_exact :: "real mat2d \<Rightarrow> real" where
  \<comment> \<open>Modelled from the spec: \<open>findMaxScale\<close> in exact arithmetic.\<close>
  "findMaxScale_exact (Mat2D a b c d tx ty) =
     clamp_scale_exact (eigen_max_exact (a * a + b * b) (a * c + b * d) (c * c + d * d))"

fun determinant_exact :: "real mat2d \<Rightarrow> real" where
  \<comment> \<open>Modelled from the spec: the determinant of the linear part.\<close>
  "determinant_exact (Mat2D a b c d tx ty) = a * d - b * c"

definition invertible_exact :: "real mat2d \<Rightarrow> bool" where
  \<comment> \<open>Modelled from the spec: an "invertible base matrix", one for which \<open>Mat2D::invert\<close>
      succeeds: its determinant is not zero.\<close>
  "invertible_exact m = (determinant_exact m \<noteq> 0)"

fun invert_exact :: "real mat2d \<Rightarrow> real mat2d option" where
  \<comment> \<open>Modelled from the spec: \<open>Mat2D::invert\<close> with real entries; it fails, here with
      \<open>None\<close>, when the determinant is zero.\<close>
  "invert_exact (Mat2D a b c d tx ty) =
     (if a * d - b * c = 0 then None
      else Some (Mat2D (d / (a * d - b * c)) (- b / (a * d - b * c))
                       (- c / (a * d - b * c)) (a / (a * d - b * c))
                       ((c * ty - d * tx) / (a * d - b * c))
                       ((b * tx - a * ty) / (a * d - b * c))))"


fun transform_exact :: "real mat2d \<Rightarrow> real \<times> real \<Rightarrow> real \<times> real" where
  \<comment> \<open>The transformed vector of the test,
      \<open>{mat[0] * v.x + mat[2] * v.y, mat[1] * v.x + mat[3] * v.y}\<close>, with real entries.\<close>
  "transform_exact (Mat2D a b c d tx ty) (x, y) = (a * x + c * y, b * x + d * y)"

fun length_exact :: "real \<times> real \<Rightarrow> real" where
  \<comment> \<open>Modelled from the spec: \<open>Vec2D::length\<close>, the Euclidean length.\<close>
  "length_exact (x, y) = sqrt (x * x + y * y)"

section \<open>Lane-wise reading of the vector operations\<close>

lemma vtrue_neq_0: "vtrue \<noteq> 0"
  by (simp add: vtrue_def)

lemma vbool_neq_0 [simp]: "vbool c \<noteq> 0 \<longleftrightarrow> c"
  by (simp add: vbool_def vtrue_neq_0)

lemma vbool_eq_0 [simp]: "vbool c = 0 \<longleftrightarrow> \<not> c"
  by (simp add: vbool_def vtrue_neq_0)

lemma length_if_then_else:
  "length c = n \<Longrightarrow> length t = n \<Longrightarrow> length e = n \<Longrightarrow> length (if_then_else c t e) = n"
  by (induction c t e arbitrary: n rule: if_then_else.induct) auto

lemma nth_if_then_else:
  "length c = length t \<Longrightarrow> length e = length t \<Longrightarrow> i < length t \<Longrightarrow>
   if_then_else c t e ! i = (if c ! i \<noteq> 0 then t ! i else e ! i)"
proof (induction c t e arbitrary: i rule: if_then_else.induct)
  case (1 c cs t ts e es)
  then show ?case by (cases i) auto
qed auto

lemma length_isnan [simp]: "length (isnan T x) = length x"
  by (cases T) (simp_all add: isnan_def vnot_def veq_def)

lemma nth_isnan:
  "i < length x \<Longrightarrow> isnan T x ! i = vbool (T = Float \<and> is_nan (x ! i))"
  by (cases T) (simp_all add: isnan_def vnot_def veq_def lane_eq_def feq_def vbool_def)

lemma length_min_simd: "length a = length b \<Longrightarrow> length (min_simd T a b) = length b"
  by (simp add: min_simd_def vor_def vlt_def length_if_then_else)

lemma length_max_simd: "length a = length b \<Longrightarrow> length (max_simd T a b) = length b"
  by (simp add: max_simd_def vor_def vlt_def length_if_then_else)

lemma nth_min_simd:
  "length a = length b \<Longrightarrow> i < length b \<Longrightarrow> min_simd T a b ! i = min_lane T (a ! i) (b ! i)"
  by (simp add: min_simd_def min_lane_def nth_if_then_else vor_def vlt_def nth_isnan)

lemma nth_max_simd:
  "length a = length b \<Longrightarrow> i < length b \<Longrightarrow> max_simd T a b ! i = max_lane T (a ! i) (b ! i)"
  by (simp add: max_simd_def max_lane_def nth_if_then_else vor_def vlt_def nth_isnan)

lemma nth_clamp:
  "length lo = length x \<Longrightarrow> length hi = length x \<Longrightarrow> i < length x \<Longrightarrow>
   clamp T x lo hi ! i = min_lane T (max_lane T (lo ! i) (x ! i)) (hi ! i)"
  by (simp add: clamp_def nth_min_simd nth_max_simd length_max_simd)

lemma nth_abs_simd:
  "i < length x \<Longrightarrow> abs_simd T x ! i = (if lane_lt T (x ! i) 0 then lane_neg T (x ! i) else x ! i)"
  by (simp add: abs_simd_def nth_if_then_else vlt_def vneg_def splat_def)

section \<open>Facts about words and float bit patterns\<close>

lemma unat_lt32: "unat (w :: 32 word) < 2 ^ 32"
  using unsigned_less [of w] by simp

lemma mag_take_bit: "mag w = unat (take_bit 31 w)"
  by (simp add: mag_def take_bit_eq_mod unat_mod)

lemma sign_bit_bit: "sign_bit w = bit w 31"
proof -
  have "bit w 31 \<longleftrightarrow> bit (unat w) 31" by (simp add: bit_unsigned_iff)
  also have "\<dots> \<longleftrightarrow> odd (unat w div 2 ^ 31)" by (simp add: bit_iff_odd)
  also have "\<dots> \<longleftrightarrow> 2 ^ 31 \<le> unat w"
  proof -
    have "unat w div 2 ^ 31 < 2" using unat_lt32 [of w] by (simp add: less_mult_imp_div_less)
    then have "unat w div 2 ^ 31 = 0 \<or> unat w div 2 ^ 31 = 1" by linarith
    then show ?thesis by (auto simp: div_eq_0_iff dest: )
  qed
  finally show ?thesis by (simp add: sign_bit_def)
qed

lemma mag_fneg: "mag (fneg w) = mag w"
  by (simp add: mag_take_bit fneg_def take_bit_xor)

lemma sign_fneg: "sign_bit (fneg w) = (\<not> sign_bit w)"
  by (simp add: sign_bit_bit fneg_def bit_xor_iff)

lemma sint_neg: "sint (x :: 32 word) \<noteq> - (2 ^ 31) \<Longrightarrow> sint (- x) = - sint x"
  using sint_ge [of x] sint_lt [of x]
  by (simp add: sint_word_ariths signed_take_bit_int_eq_self_iff)

lemma sint_min: "sint (x :: 32 word) = - (2 ^ 31) \<longleftrightarrow> x = 0x80000000"
proof
  assume "sint x = - (2 ^ 31)"
  then have "sint x = sint (0x80000000 :: 32 word)" by simp
  then show "x = 0x80000000" by (rule signed_word_eqI)
qed simp

lemma unat_sign_mag: "unat w = (if sign_bit w then 2 ^ 31 else 0) + mag w"
proof (cases "sign_bit w")
  case True
  then have "2 ^ 31 \<le> unat w" by (simp add: sign_bit_def)
  then have "unat w mod 2 ^ 31 = (unat w - 2 ^ 31) mod 2 ^ 31" by (rule le_mod_geq)
  also have "\<dots> = unat w - 2 ^ 31" using unat_lt32 [of w] by simp
  finally show ?thesis using True \<open>2 ^ 31 \<le> unat w\<close> by (simp add: mag_def)
next
  case False
  then show ?thesis by (simp add: sign_bit_def mag_def)
qed

lemma float_eqI: "sign_bit x = sign_bit y \<Longrightarrow> mag x = mag y \<Longrightarrow> x = y"
  by (rule unsigned_word_eqI [where ?'a = nat]) (simp add: unat_sign_mag)

lemma sint_inj: "sint a = sint b \<longleftrightarrow> a = (b :: 32 word)"
  by (auto intro: signed_word_eqI)

lemma unat_inj: "unat a = unat b \<longleftrightarrow> a = (b :: 32 word)"
  by (auto intro: unsigned_word_eqI [where ?'a = nat])

lemma clamp_lane_int32:
  assumes "sint hi \<le> sint lo"
  shows "min_lane Int32 (max_lane Int32 lo x) hi = hi"
proof (cases "sint lo < sint x")
  case True
  with assms show ?thesis by (simp add: min_lane_def max_lane_def lane_lt_def)
next
  case False
  show ?thesis
  proof (cases "sint hi < sint lo")
    case True
    with False show ?thesis by (simp add: min_lane_def max_lane_def lane_lt_def)
  next
    case nlt: False
    with assms have "sint lo = sint hi" by simp
    then have "lo = hi" by (simp add: sint_inj)
    with False nlt show ?thesis by (simp add: min_lane_def max_lane_def lane_lt_def)
  qed
qed

lemma clamp_lane_uint32:
  assumes "unat hi \<le> unat lo"
  shows "min_lane UInt32 (max_lane UInt32 lo x) hi = hi"
proof (cases "unat lo < unat x")
  case True
  with assms show ?thesis by (simp add: min_lane_def max_lane_def lane_lt_def)
next
  case False
  show ?thesis
  proof (cases "unat hi < unat lo")
    case True
    with False show ?thesis by (simp add: min_lane_def max_lane_def lane_lt_def)
  next
    case nlt: False
    with assms have "unat lo = unat hi" by simp
    then have "lo = hi" by (simp add: unat_inj)
    with False nlt show ?thesis by (simp add: min_lane_def max_lane_def lane_lt_def)
  qed
qed

section \<open>Evaluating float arithmetic on literals\<close>

text \<open>
  Rewrite rules that unfold \<open>bitlen\<close> and \<open>isqrt_aux\<close> on numerals only, so that the
  simplifier computes with them and never unfolds them on a variable.
\<close>

lemma bitlen_0 [simp]: "bitlen 0 = 0"
  by (simp add: bitlen.simps)

lemma bitlen_1 [simp]: "bitlen 1 = 1" "bitlen (Suc 0) = 1"
  by (simp_all add: bitlen.simps)

lemma bitlen_numeral [simp]:
  "bitlen (numeral Num.One) = 1"
  "bitlen (numeral (Num.Bit0 k)) = Suc (bitlen (numeral k))"
  "bitlen (numeral (Num.Bit1 k)) = Suc (bitlen (numeral k))"
proof -
  show "bitlen (numeral Num.One) = 1" by (simp add: bitlen.simps)
  have "numeral (Num.Bit0 k) div 2 = (numeral k :: nat)" by simp
  then show "bitlen (numeral (Num.Bit0 k)) = Suc (bitlen (numeral k))"
    by (subst bitlen.simps) simp
  have "numeral (Num.Bit1 k) div 2 = (numeral k :: nat)" by simp
  then show "bitlen (numeral (Num.Bit1 k)) = Suc (bitlen (numeral k))"
    by (subst bitlen.simps) simp
qed

lemma isqrt_aux_numeral [simp]:
  "isqrt_aux 0 n r = r"
  "isqrt_aux (numeral k) n r =
     (if (r + 2 ^ (numeral k - 1)) * (r + 2 ^ (numeral k - 1)) \<le> n
      then isqrt_aux (numeral k - 1) n (r + 2 ^ (numeral k - 1))
      else isqrt_aux (numeral k - 1) n r)"
  "isqrt_aux (Suc j) n r =
     (if (r + 2 ^ j) * (r + 2 ^ j) \<le> n
      then isqrt_aux j n (r + 2 ^ j)
      else isqrt_aux j n r)"
  by (subst isqrt_aux.simps, simp)+

lemmas float_eval = is_nan_def mag_def key_def sign_bit_def flt_def fle_def feq_def

lemmas arith_eval = fadd_def fsub_def fmul_def fdiv_def fsqrt_def isqrt_def sticky_def
  fround_def fround_int_def round_mag_def quantum_def scale_rne_def rne_div_def mk_float_def
  mant_def expt_def sval_def fneg_def is_nan_def is_inf_def mag_def sign_bit_def qNaN_def

section \<open>Addition commutes\<close>

lemma fadd_commute: "fadd x y = fadd y x"
proof (cases "is_nan x \<or> is_nan y")
  case True
  then show ?thesis by (auto simp: fadd_def)
next
  case nn: False
  show ?thesis
  proof (cases "is_inf x")
    case ix: True
    show ?thesis
    proof (cases "is_inf y")
      case iy: True
      show ?thesis
      proof (cases "sign_bit x = sign_bit y")
        case True
        with ix iy have "x = y" by (intro float_eqI) (simp_all add: is_inf_def)
        then show ?thesis by simp
      next
        case False
        with nn ix iy show ?thesis by (simp add: fadd_def)
      qed
    next
      case False
      with nn ix show ?thesis by (simp add: fadd_def)
    qed
  next
    case nx: False
    show ?thesis
    proof (cases "is_inf y")
      case True
      with nn nx show ?thesis by (simp add: fadd_def)
    next
      case False
      with nn nx show ?thesis
        by (simp add: fadd_def min.commute add.commute conj_commute)
    qed
  qed
qed

section \<open>Facts about rounding\<close>

lemma unat_word_of_nat32: "n < 2 ^ 32 \<Longrightarrow> unat (word_of_nat n :: 32 word) = n"
  by (simp add: unat_of_nat)

lemma mag_mk_float: "m < 2 ^ 31 \<Longrightarrow> mag (mk_float s m) = m"
  by (simp add: mag_def mk_float_def unat_word_of_nat32)

lemma sign_mk_float: "m < 2 ^ 31 \<Longrightarrow> sign_bit (mk_float s m) = s"
  by (simp add: sign_bit_def mk_float_def unat_word_of_nat32)

lemma round_mag_le: "round_mag M e \<le> 0x7F800000"
  by (simp add: round_mag_def)

lemma mag_fround: "mag (fround s M e) = round_mag M e"
  using round_mag_le [of M e] by (simp add: fround_def mag_mk_float)

lemma sign_fround: "sign_bit (fround s M e) = s"
  using round_mag_le [of M e] by (simp add: fround_def sign_mk_float)

lemma not_nan_fround: "\<not> is_nan (fround s M e)"
  using round_mag_le [of M e] by (simp add: is_nan_def mag_fround)

lemma mk_float_False: "mk_float False m = word_of_nat m"
  by (simp add: mk_float_def)

lemma pInf_props: "\<not> is_nan pInf" "is_inf pInf" "\<not> sign_bit pInf" "mag pInf = 0x7F800000"
  by (simp_all add: pInf_def is_nan_def is_inf_def sign_bit_def mag_def)

lemma qNaN_props: "is_nan qNaN"
  by (simp add: qNaN_def is_nan_def mag_def)

lemma bitlen_gt: "2 ^ k \<le> n \<Longrightarrow> k < bitlen n"
proof (induction k arbitrary: n)
  case 0
  then show ?case by (subst bitlen.simps) simp
next
  case (Suc k)
  then have "2 ^ k \<le> n div 2" by simp
  then have "k < bitlen (n div 2)" by (rule Suc.IH)
  moreover have "(0::nat) < 2 ^ Suc k" by simp
  with Suc.prems have "n \<noteq> 0" by linarith
  ultimately show ?case by (subst bitlen.simps) simp
qed

lemma round_mag_overflow:
  assumes "2 ^ k \<le> M" and "129 \<le> int k + e"
  shows "round_mag M e = 0x7F800000"
proof -
  have "(0::nat) < 2 ^ k" by simp
  with assms(1) have M: "M \<noteq> 0" by linarith
  from bitlen_gt [OF assms(1)] have "int k + 1 \<le> int (bitlen M)" by simp
  with assms(2) have q: "106 \<le> quantum M e" by (simp add: quantum_def)
  have "255 * 2 ^ 23 \<le> nat (quantum M e + 149) * (2 ^ 23 :: nat)"
    using q by (intro mult_right_mono) simp_all
  then have "(0x7F800000 :: nat) \<le> nat (quantum M e + 149) * 2 ^ 23 + scale_rne M (quantum M e - e)"
    by simp
  with M show ?thesis by (simp add: round_mag_def min_def)
qed


lemma mant_normal: "2 ^ 23 \<le> mag w \<Longrightarrow> 2 ^ 23 \<le> mant w"
  by (simp add: mant_def)


section \<open>The arithmetic model against known results\<close>

text \<open>
  The integer square root is the floor of the square root, and the operations reproduce
  binary32 results that are known from the hardware: \<open>0.1f + 0.2f\<close>, \<open>1 - 2^25\<close>,
  \<open>0.1f * 0.1f\<close>, an overflowing product, a tie in the subnormal range, a tie at
  \<open>2^24 + 2\<close>, \<open>1 + (-1)\<close>, \<open>-0 + -0\<close>, \<open>1 / 3\<close>, \<open>1 / 0\<close>, \<open>sqrt 2\<close>, the square
  root of the least subnormal, and \<open>sqrt (-1)\<close>.
\<close>

lemma bitlen_bound: "n < 2 ^ bitlen n"
proof (induction n rule: bitlen.induct)
  case (1 n)
  show ?case
  proof (cases "n = 0")
    case True
    then show ?thesis by simp
  next
    case False
    with 1 have "n div 2 < 2 ^ bitlen (n div 2)" by simp
    then have "n < 2 * 2 ^ bitlen (n div 2)" by linarith
    with False show ?thesis by (subst bitlen.simps) simp
  qed
qed

lemma isqrt_aux_correct:
  "r * r \<le> n \<Longrightarrow> n < (r + 2 ^ k) * (r + 2 ^ k) \<Longrightarrow>
   isqrt_aux k n r * isqrt_aux k n r \<le> n \<and> n < (isqrt_aux k n r + 1) * (isqrt_aux k n r + 1)"
proof (induction k arbitrary: r)
  case 0
  then show ?case by simp
next
  case (Suc k)
  show ?case
  proof (cases "(r + 2 ^ k) * (r + 2 ^ k) \<le> n")
    case True
    have "r + 2 ^ k + 2 ^ k = r + 2 ^ Suc k" by simp
    with Suc.prems(2) have "n < (r + 2 ^ k + 2 ^ k) * (r + 2 ^ k + 2 ^ k)" by metis
    with True Suc.IH [of "r + 2 ^ k"] show ?thesis by simp
  next
    case False
    then have "n < (r + 2 ^ k) * (r + 2 ^ k)" by simp
    with False Suc.prems(1) Suc.IH [of r] show ?thesis by simp
  qed
qed

lemma isqrt_correct: "isqrt n * isqrt n \<le> n \<and> n < (isqrt n + 1) * (isqrt n + 1)"
proof -
  let ?k = "(bitlen n + 1) div 2"
  have "bitlen n \<le> ?k + ?k" by linarith
  then have "(2::nat) ^ bitlen n \<le> 2 ^ (?k + ?k)" by (rule power_increasing) simp
  with bitlen_bound [of n] have "n < 2 ^ ?k * 2 ^ ?k" by (simp add: power_add)
  then have "n < (0 + 2 ^ ?k) * (0 + 2 ^ ?k)" by simp
  with isqrt_aux_correct [of 0 n ?k] show ?thesis by (simp add: isqrt_def)
qed

lemma arithmetic_examples:
  "fadd 0x3DCCCCCD 0x3E4CCCCD = 0x3E99999A"
  "fsub 0x3F800000 0x4C000000 = 0xCC000000"
  "fmul 0x3DCCCCCD 0x3DCCCCCD = 0x3C23D70B"
  "fmul 0x7C000000 0x7C000000 = 0x7F800000"
  "fmul 0x00000003 0x3F000000 = 0x00000002"
  "fadd 0x4B800001 0x3F800000 = 0x4B800002"
  "fadd 0x3F800000 0xBF800000 = 0"
  "fadd 0x80000000 0x80000000 = 0x80000000"
  "fdiv 0x3F800000 0x40400000 = 0x3EAAAAAB"
  "fdiv 0x3F800000 0 = 0x7F800000"
  "fsqrt 0x40000000 = 0x3FB504F3"
  "fsqrt 0x00000001 = 0x1A3504F3"
  "fsqrt 0xBF800000 = 0x7FC00000"
  by (simp_all add: arith_eval)

section \<open>NaN-aware minimum and maximum\<close>

text \<open>
  Claim C6. In every lane of \<open>simd::min(a, b)\<close> and of \<open>simd::max(a, b)\<close> on float
  vectors, when exactly one of the two operands is NaN the result is the operand that is not
  NaN, whichever side the NaN is on. The witness is the case of the claim:
  \<open>min(NaN, 5) = 5\<close>, \<open>min(5, NaN) = 5\<close>, \<open>max(NaN, 5) = 5\<close>, \<open>max(5, NaN) = 5\<close>
  (\<open>0x7FC00000\<close> is the quiet NaN, \<open>0x40A00000\<close> is \<open>5.0f\<close>).
\<close>

theorem min_max_prefer_non_nan:
  assumes "length a = length b" and "i < length b"
    and "is_nan (a ! i) \<noteq> is_nan (b ! i)"
  shows "min_simd Float a b ! i = (if is_nan (a ! i) then b ! i else a ! i)
       \<and> max_simd Float a b ! i = (if is_nan (a ! i) then b ! i else a ! i)"
  using assms by (auto simp: nth_min_simd nth_max_simd min_lane_def max_lane_def lane_lt_def flt_def)

theorem min_max_prefer_non_nan_witness:
  "min_simd Float [0x7FC00000] [0x40A00000] ! 0 = 0x40A00000
   \<and> max_simd Float [0x7FC00000] [0x40A00000] ! 0 = 0x40A00000
   \<and> min_simd Float [0x40A00000] [0x7FC00000] ! 0 = 0x40A00000
   \<and> max_simd Float [0x40A00000] [0x7FC00000] ! 0 = 0x40A00000"
  using min_max_prefer_non_nan [of "[0x7FC00000]" "[0x40A00000]" 0]
        min_max_prefer_non_nan [of "[0x40A00000]" "[0x7FC00000]" 0]
  by (simp add: is_nan_def mag_def)

section \<open>Clamp\<close>

text \<open>
  Claim C7, as amended. \<open>simd::clamp(x, lo, hi)\<close> is \<open>min(max(lo, x), hi)\<close>, and in
  every float lane: it returns \<open>lo\<close> when \<open>x\<close> is NaN, provided \<open>lo\<close> is not NaN and
  \<open>hi\<close> is not below \<open>lo\<close>; it returns a value equal to \<open>hi\<close> (C++ \<open>==\<close>) whenever
  \<open>hi <= lo\<close>, whatever \<open>x\<close> is; a NaN \<open>lo\<close> leaves \<open>min(x, hi)\<close>; and a NaN \<open>hi\<close>
  leaves \<open>max(lo, x)\<close> when \<open>x\<close> is not NaN. On \<open>int32_t\<close> and \<open>uint32_t\<close> lanes, where
  nothing is NaN, it returns \<open>hi\<close> whenever \<open>hi <= lo\<close>.
\<close>

theorem clamp_contract:
  assumes "length lo = length x" and "length hi = length x" and "i < length x"
  shows "clamp Float x lo hi = min_simd Float (max_simd Float lo x) hi
     \<and> (is_nan (x ! i) \<and> \<not> is_nan (lo ! i) \<and> \<not> flt (hi ! i) (lo ! i)
          \<longrightarrow> clamp Float x lo hi ! i = lo ! i)
     \<and> (fle (hi ! i) (lo ! i) \<longrightarrow> feq (clamp Float x lo hi ! i) (hi ! i))
     \<and> (is_nan (lo ! i) \<longrightarrow> clamp Float x lo hi ! i = min_simd Float x hi ! i)
     \<and> (is_nan (hi ! i) \<and> \<not> is_nan (x ! i)
          \<longrightarrow> clamp Float x lo hi ! i = max_simd Float lo x ! i)
     \<and> (sint (hi ! i) \<le> sint (lo ! i) \<longrightarrow> clamp Int32 x lo hi ! i = hi ! i)
     \<and> (unat (hi ! i) \<le> unat (lo ! i) \<longrightarrow> clamp UInt32 x lo hi ! i = hi ! i)"
proof -
  let ?r = "clamp Float x lo hi ! i"
  have r: "?r = min_lane Float (max_lane Float (lo ! i) (x ! i)) (hi ! i)"
    using assms by (simp add: nth_clamp)
  have mn: "min_simd Float x hi ! i = min_lane Float (x ! i) (hi ! i)"
    using assms by (simp add: nth_min_simd)
  have mx: "max_simd Float lo x ! i = max_lane Float (lo ! i) (x ! i)"
    using assms by (simp add: nth_max_simd)
  have 1: "clamp Float x lo hi = min_simd Float (max_simd Float lo x) hi"
    by (simp add: clamp_def)
  have 2: "is_nan (x ! i) \<and> \<not> is_nan (lo ! i) \<and> \<not> flt (hi ! i) (lo ! i) \<longrightarrow> ?r = lo ! i"
    unfolding r by (simp add: min_lane_def max_lane_def lane_lt_def flt_def)
  have 3: "fle (hi ! i) (lo ! i) \<longrightarrow> feq ?r (hi ! i)"
    unfolding r by (auto simp: min_lane_def max_lane_def lane_lt_def flt_def fle_def feq_def)
  have 4: "is_nan (lo ! i) \<longrightarrow> ?r = min_simd Float x hi ! i"
    unfolding r mn by (simp add: min_lane_def max_lane_def lane_lt_def flt_def)
  have 5: "is_nan (hi ! i) \<and> \<not> is_nan (x ! i) \<longrightarrow> ?r = max_simd Float lo x ! i"
    unfolding r mx by (auto simp: min_lane_def max_lane_def lane_lt_def flt_def)
  have 6: "sint (hi ! i) \<le> sint (lo ! i) \<longrightarrow> clamp Int32 x lo hi ! i = hi ! i"
    using assms by (simp add: nth_clamp clamp_lane_int32)
  have 7: "unat (hi ! i) \<le> unat (lo ! i) \<longrightarrow> clamp UInt32 x lo hi ! i = hi ! i"
    using assms by (simp add: nth_clamp clamp_lane_uint32)
  from 1 2 3 4 5 6 7 show ?thesis by blast
qed

text \<open>
  The four lanes of the witness are \<open>clamp(NaN, 5, 9) = 5\<close>, \<open>clamp(7, 5, 3) = 3\<close>,
  \<open>clamp(7, NaN, 6) = 6\<close> and \<open>clamp(7, 1, NaN) = 7\<close>.
\<close>

theorem clamp_contract_witness:
  "is_nan ([0x7FC00000, 0x40E00000, 0x40E00000, 0x40E00000] ! 0)
   \<and> \<not> is_nan ([0x40A00000, 0x40A00000, 0x7FC00000, 0x3F800000] ! 0)
   \<and> \<not> flt ([0x41100000, 0x40400000, 0x40C00000, 0x7FC00000] ! 0)
            ([0x40A00000, 0x40A00000, 0x7FC00000, 0x3F800000] ! 0)
   \<and> fle ([0x41100000, 0x40400000, 0x40C00000, 0x7FC00000] ! 1)
          ([0x40A00000, 0x40A00000, 0x7FC00000, 0x3F800000] ! 1)
   \<and> is_nan ([0x40A00000, 0x40A00000, 0x7FC00000, 0x3F800000] ! 2)
   \<and> is_nan ([0x41100000, 0x40400000, 0x40C00000, 0x7FC00000] ! 3)
   \<and> clamp Float [0x7FC00000, 0x40E00000, 0x40E00000, 0x40E00000]
                   [0x40A00000, 0x40A00000, 0x7FC00000, 0x3F800000]
                   [0x41100000, 0x40400000, 0x40C00000, 0x7FC00000]
       = [0x40A00000, 0x40400000, 0x40C00000, 0x40E00000]"
  using clamp_contract [of "[0x40A00000, 0x40A00000, 0x7FC00000, 0x3F800000]"
                           "[0x7FC00000, 0x40E00000, 0x40E00000, 0x40E00000]"
                           "[0x41100000, 0x40400000, 0x40C00000, 0x7FC00000]" 0]
  by (simp add: float_eval min_simd_def max_simd_def vor_def vlt_def isnan_def vnot_def veq_def
      lane_lt_def lane_eq_def)

text \<open>
  The claim as stated promises \<open>lo\<close> for every NaN \<open>x\<close>. With \<open>hi\<close> below \<open>lo\<close> the
  code returns \<open>hi\<close>: \<open>clamp(NaN, 5, 3) = 3\<close> (\<open>0x40400000\<close> is \<open>3.0f\<close>).
\<close>

theorem clamp_nan_returns_lo_counterexample:
  "is_nan 0x7FC00000 \<and> clamp Float [0x7FC00000] [0x40A00000] [0x40400000] = [0x40400000]
   \<and> \<not> feq 0x40400000 0x40A00000"
  by (simp add: clamp_def min_simd_def max_simd_def vor_def vlt_def isnan_def vnot_def veq_def
      lane_lt_def lane_eq_def flt_def feq_def is_nan_def mag_def key_def sign_bit_def)

section \<open>Absolute value\<close>

text \<open>
  Claim C9. \<open>simd::abs(x)\<close> returns the absolute value of every lane: on \<open>int32_t\<close>
  lanes the result read as a signed integer is \<open>|x|\<close> for every lane but the minimum
  \<open>INT32_MIN = 0x80000000\<close>, which maps to itself because negation wraps modulo
  \<open>2 ^ 32\<close>; on \<open>uint32_t\<close> lanes nothing changes; on float lanes a lane that is not NaN
  keeps its magnitude and is no longer negative, and a NaN lane is returned as it is.
\<close>

theorem abs_simd_contract:
  assumes "i < length x"
  shows "(sint (x ! i) \<noteq> - (2 ^ 31) \<longrightarrow> sint (abs_simd Int32 x ! i) = \<bar>sint (x ! i)\<bar>)
     \<and> (x ! i = 0x80000000 \<longrightarrow> abs_simd Int32 x ! i = 0x80000000)
     \<and> abs_simd UInt32 x ! i = x ! i
     \<and> (\<not> is_nan (x ! i) \<longrightarrow> key (abs_simd Float x ! i) = \<bar>key (x ! i)\<bar>
            \<and> mag (abs_simd Float x ! i) = mag (x ! i))
     \<and> (is_nan (x ! i) \<longrightarrow> abs_simd Float x ! i = x ! i)"
  using assms
  by (auto simp: nth_abs_simd lane_lt_def lane_neg_def sint_neg flt_def key_def mag_fneg sign_fneg
       is_nan_def mag_def[of 0] sign_bit_def[of 0])

theorem abs_simd_contract_witness:
  "abs_simd Int32 [0xFFFFFFFB, 0x80000000, 7] = [5, 0x80000000, 7]
   \<and> abs_simd UInt32 [0xFFFFFFFB, 0x80000000, 7] = [0xFFFFFFFB, 0x80000000, 7]
   \<and> abs_simd Float [0xC0A00000, 0x40A00000, 0xFFC00000] = [0x40A00000, 0x40A00000, 0xFFC00000]"
  using abs_simd_contract [of 0 "[0xFFFFFFFB, 0x80000000, 7]"]
        abs_simd_contract [of 1 "[0xFFFFFFFB, 0x80000000, 7]"]
        abs_simd_contract [of 0 "[0xC0A00000, 0x40A00000, 0xFFC00000]"]
        abs_simd_contract [of 2 "[0xC0A00000, 0x40A00000, 0xFFC00000]"]
  by (simp add: float_eval abs_simd_def vlt_def vneg_def splat_def lane_lt_def lane_neg_def fneg_def)

section \<open>Linear interpolation\<close>

lemma nth_mix:
  assumes "length a = length b" and "i < length b" and "mix ndebug a b t = Some r"
  shows "r ! i = fadd (fmul (fsub (b ! i) (a ! i)) t) (a ! i)"
  using assms by (auto simp: mix_def vadd_def vmul_def vsub_def splat_def split: if_splits)

lemma any_iff: "any x \<longleftrightarrow> (\<exists>l \<in> set x. l \<noteq> 0)"
  by (induction x) auto

lemma NOT_vbool_eq_0: "NOT (vbool c) = 0 \<longleftrightarrow> c"
  by (simp add: vbool_def vtrue_def)

lemma all_iff_nth: "all x \<longleftrightarrow> (\<forall>j < length x. NOT (x ! j) = 0)"
  by (simp add: all_def any_iff all_set_conv_all_nth)

lemma all_unit_interval:
  "all (vand (vle Float (splat (length t) 0) t) (vlt Float t (splat (length t) f_one)))
   \<longleftrightarrow> (\<forall>j < length t. fle 0 (t ! j) \<and> flt (t ! j) f_one)"
proof -
  let ?c = "vand (vle Float (splat (length t) 0) t) (vlt Float t (splat (length t) f_one))"
  have len: "length ?c = length t"
    by (simp add: vand_def vle_def vlt_def splat_def)
  have nth: "?c ! j = vbool (fle 0 (t ! j) \<and> flt (t ! j) f_one)" if "j < length t" for j
    using that by (simp add: vand_def vle_def vlt_def splat_def lane_lt_def)
  show ?thesis
    unfolding all_iff_nth len using nth by (simp add: NOT_vbool_eq_0)
qed

lemma nth_mix_v:
  assumes "length a = length b" and "length t = length b" and "i < length b"
    and "mix_v ndebug a b t = Some r"
  shows "r ! i = fadd (fmul (fsub (b ! i) (a ! i)) (t ! i)) (a ! i)"
  using assms by (auto simp: mix_v_def vadd_def vmul_def vsub_def split: if_splits)

text \<open>
  Claim C8. Under the precondition \<open>0 <= t < 1\<close> both overloads of \<open>simd::mix(a, b, t)\<close>
  return, in debug and in release builds, and every lane of the result is
  \<open>(b - a) * t + a\<close> in float arithmetic. Outside the precondition the debug build stops
  at the assertion and the release build does not. At \<open>t = 1\<close> the release build's result
  need not be \<open>b\<close>: \<open>mix(2^25, 1, 1)\<close> is \<open>0\<close>, because \<open>1 - 2^25\<close> rounds to \<open>-2^25\<close>
  (\<open>0x4C000000\<close> is \<open>2^25\<close>).
\<close>

theorem mix_contract:
  assumes "length a = length b" and "length tv = length b" and "i < length b"
  shows "(fle 0 t \<and> flt t f_one \<longrightarrow>
            (\<exists>r. mix ndebug a b t = Some r
                 \<and> r ! i = fadd (fmul (fsub (b ! i) (a ! i)) t) (a ! i)))
       \<and> ((\<forall>j < length tv. fle 0 (tv ! j) \<and> flt (tv ! j) f_one) \<longrightarrow>
            (\<exists>r. mix_v ndebug a b tv = Some r
                 \<and> r ! i = fadd (fmul (fsub (b ! i) (a ! i)) (tv ! i)) (a ! i)))
       \<and> (\<not> (fle 0 t \<and> flt t f_one) \<longrightarrow> mix False a b t = None \<and> mix True a b t \<noteq> None)
       \<and> mix True [0x4C000000] [f_one] f_one = Some [0] \<and> \<not> feq 0 f_one"
proof -
  have 1: "fle 0 t \<and> flt t f_one \<longrightarrow>
            (\<exists>r. mix ndebug a b t = Some r
                 \<and> r ! i = fadd (fmul (fsub (b ! i) (a ! i)) t) (a ! i))"
  proof
    assume "fle 0 t \<and> flt t f_one"
    then obtain r where r: "mix ndebug a b t = Some r" by (simp add: mix_def)
    with nth_mix [OF assms(1) assms(3) r] show "\<exists>r. mix ndebug a b t = Some r
                 \<and> r ! i = fadd (fmul (fsub (b ! i) (a ! i)) t) (a ! i)" by simp
  qed
  have 2: "(\<forall>j < length tv. fle 0 (tv ! j) \<and> flt (tv ! j) f_one) \<longrightarrow>
            (\<exists>r. mix_v ndebug a b tv = Some r
                 \<and> r ! i = fadd (fmul (fsub (b ! i) (a ! i)) (tv ! i)) (a ! i))"
  proof
    assume "\<forall>j < length tv. fle 0 (tv ! j) \<and> flt (tv ! j) f_one"
    then obtain r where r: "mix_v ndebug a b tv = Some r"
      by (simp add: mix_v_def all_unit_interval)
    with nth_mix_v [OF assms r] show "\<exists>r. mix_v ndebug a b tv = Some r
                 \<and> r ! i = fadd (fmul (fsub (b ! i) (a ! i)) (tv ! i)) (a ! i)" by simp
  qed
  have 3: "\<not> (fle 0 t \<and> flt t f_one) \<longrightarrow> mix False a b t = None \<and> mix True a b t \<noteq> None"
    by (simp add: mix_def)
  have 4: "mix True [0x4C000000] [f_one] f_one = Some [0]"
    by (simp add: mix_def vadd_def vmul_def vsub_def splat_def f_one_def arith_eval)
  have 5: "\<not> feq 0 f_one"
    by (simp add: f_one_def float_eval)
  from 1 2 3 4 5 show ?thesis by blast
qed

text \<open>
  The witness: \<open>mix((1, 2), (3, 4), 0.5) = (2, 3)\<close>, the vector overload with
  \<open>t = (0.5, 0)\<close> gives \<open>(2, 2)\<close>, and \<open>t = 1\<close> is stopped by the assertion in a debug
  build only.
\<close>

theorem mix_contract_witness:
  "fle 0 0x3F000000 \<and> flt 0x3F000000 f_one
   \<and> mix False [0x3F800000, 0x40000000] [0x40400000, 0x40800000] 0x3F000000
     = Some [0x40000000, 0x40400000]
   \<and> mix_v False [0x3F800000, 0x40000000] [0x40400000, 0x40800000] [0x3F000000, 0]
     = Some [0x40000000, 0x40000000]
   \<and> mix False [0x3F800000, 0x40000000] [0x40400000, 0x40800000] f_one = None
   \<and> mix True [0x3F800000, 0x40000000] [0x40400000, 0x40800000] f_one \<noteq> None"
proof -
  let ?a = "[0x3F800000, 0x40000000] :: gvec"
  let ?b = "[0x40400000, 0x40800000] :: gvec"
  let ?tv = "[0x3F000000, 0] :: gvec"
  have len: "length ?a = length ?b" "length ?tv = length ?b" "0 < length ?b"
    by simp_all
  have t: "fle 0 0x3F000000 \<and> flt 0x3F000000 f_one"
    by (simp add: f_one_def float_eval)
  have t1: "\<not> (fle 0 f_one \<and> flt f_one f_one)"
    by (simp add: f_one_def float_eval)
  have m: "mix False ?a ?b 0x3F000000 = Some [0x40000000, 0x40400000]"
    by (simp add: mix_def vadd_def vmul_def vsub_def splat_def f_one_def float_eval arith_eval)
  have mv: "mix_v False ?a ?b ?tv = Some [0x40000000, 0x40000000]"
    by (simp add: mix_v_def all_def vand_def vle_def vlt_def lane_lt_def vbool_def vtrue_def
        vadd_def vmul_def vsub_def splat_def f_one_def float_eval arith_eval)
  from mix_contract [OF len, of f_one False] t1
  have "mix False ?a ?b f_one = None \<and> mix True ?a ?b f_one \<noteq> None"
    by blast
  with t m mv show ?thesis by blast
qed

text \<open>
  Claim C10. The scalar \<open>lerp(a, b, t) = a + (b - a) * t\<close> and \<open>simd::mix(a, b, t)
  = (b - a) * t + a\<close> give the same float in every lane, for every \<open>a\<close> and \<open>b\<close> and every
  \<open>t\<close> that \<open>mix\<close> accepts: float addition commutes.
\<close>

theorem lerp_agrees_with_mix:
  assumes "length a = length b" and "length tv = length b" and "i < length b"
  shows "(fle 0 t \<and> flt t f_one \<longrightarrow>
            (\<exists>r. mix ndebug a b t = Some r \<and> r ! i = lerp (a ! i) (b ! i) t))
       \<and> ((\<forall>j < length tv. fle 0 (tv ! j) \<and> flt (tv ! j) f_one) \<longrightarrow>
            (\<exists>r. mix_v ndebug a b tv = Some r \<and> r ! i = lerp (a ! i) (b ! i) (tv ! i)))"
proof -
  have 1: "fle 0 t \<and> flt t f_one \<longrightarrow>
            (\<exists>r. mix ndebug a b t = Some r \<and> r ! i = lerp (a ! i) (b ! i) t)"
  proof
    assume "fle 0 t \<and> flt t f_one"
    then obtain r where r: "mix ndebug a b t = Some r" by (simp add: mix_def)
    from nth_mix [OF assms(1) assms(3) r]
    have "r ! i = lerp (a ! i) (b ! i) t"
      by (simp add: lerp_def fadd_commute [of "a ! i"])
    with r show "\<exists>r. mix ndebug a b t = Some r \<and> r ! i = lerp (a ! i) (b ! i) t" by simp
  qed
  have 2: "(\<forall>j < length tv. fle 0 (tv ! j) \<and> flt (tv ! j) f_one) \<longrightarrow>
            (\<exists>r. mix_v ndebug a b tv = Some r \<and> r ! i = lerp (a ! i) (b ! i) (tv ! i))"
  proof
    assume "\<forall>j < length tv. fle 0 (tv ! j) \<and> flt (tv ! j) f_one"
    then obtain r where r: "mix_v ndebug a b tv = Some r"
      by (simp add: mix_v_def all_unit_interval)
    from nth_mix_v [OF assms r]
    have "r ! i = lerp (a ! i) (b ! i) (tv ! i)"
      by (simp add: lerp_def fadd_commute [of "a ! i"])
    with r show "\<exists>r. mix_v ndebug a b tv = Some r \<and> r ! i = lerp (a ! i) (b ! i) (tv ! i)"
      by simp
  qed
  from 1 2 show ?thesis by blast
qed

text \<open>
  The witness has \<open>a = (1, 0.2)\<close>, \<open>b = (3, 4)\<close> and \<open>t = 0.1\<close>, where the products are
  rounded: lane 1 is \<open>0x3F147AE1\<close> on both sides.
\<close>

theorem lerp_agrees_with_mix_witness:
  "fle 0 0x3DCCCCCD \<and> flt 0x3DCCCCCD f_one
   \<and> (\<exists>r. mix False [0x3F800000, 0x3E4CCCCD] [0x40400000, 0x40800000] 0x3DCCCCCD = Some r
          \<and> r ! 1 = lerp 0x3E4CCCCD 0x40800000 0x3DCCCCCD)
   \<and> lerp 0x3E4CCCCD 0x40800000 0x3DCCCCCD = 0x3F147AE1"
proof -
  let ?a = "[0x3F800000, 0x3E4CCCCD] :: gvec"
  let ?b = "[0x40400000, 0x40800000] :: gvec"
  let ?tv = "[0x3DCCCCCD, 0] :: gvec"
  have len: "length ?a = length ?b" "length ?tv = length ?b" "1 < length ?b"
    by simp_all
  have t: "fle 0 0x3DCCCCCD \<and> flt 0x3DCCCCCD f_one"
    by (simp add: f_one_def float_eval)
  have l: "lerp 0x3E4CCCCD 0x40800000 0x3DCCCCCD = 0x3F147AE1"
    by (simp add: lerp_def arith_eval)
  from lerp_agrees_with_mix [OF len, of "0x3DCCCCCD" False] t
  have "\<exists>r. mix False ?a ?b 0x3DCCCCCD = Some r \<and> r ! 1 = lerp (?a ! 1) (?b ! 1) 0x3DCCCCCD"
    by blast
  then have "\<exists>r. mix False ?a ?b 0x3DCCCCCD = Some r \<and> r ! 1 = lerp 0x3E4CCCCD 0x40800000 0x3DCCCCCD"
    by simp
  with t l show ?thesis by blast
qed

section \<open>findMaxScale: evaluation and overflow\<close>

lemmas fms_eval = clamp_scale_def eigen_max_def f_one_def f_two_def f_four_def is_finite_def
  flt_def key_def identity_def fromScale_def fromTranslate_def pInf_def arith_eval

lemma fmul_self_overflow:
  assumes "is_finite a" and "0x60000000 \<le> mag a"
  shows "fmul a a = pInf"
proof -
  from assms have nn: "\<not> is_nan a" "\<not> is_inf a"
    by (simp_all add: is_finite_def is_nan_def is_inf_def)
  from assms(2) have "2 ^ 23 \<le> mag a" by simp
  then have m: "2 ^ 23 \<le> mant a" by (rule mant_normal)
  have "2 ^ 23 * 2 ^ 23 \<le> mant a * mant a" using m by (intro mult_mono) simp_all
  then have M: "2 ^ 46 \<le> mant a * mant a" by simp
  from assms(2) have "192 \<le> mag a div 2 ^ 23" by simp
  with assms(2) have e: "42 \<le> expt a" by (simp add: expt_def)
  have "round_mag (mant a * mant a) (expt a + expt a) = 0x7F800000"
    using M e by (intro round_mag_overflow [where k = 46]) simp_all
  with nn show ?thesis by (simp add: fmul_def fround_def mk_float_def pInf_def)
qed

lemma fmul_self_nonneg:
  assumes "\<not> is_nan x"
  shows "\<not> is_nan (fmul x x) \<and> \<not> sign_bit (fmul x x)"
proof (cases "is_inf x")
  case True
  then have "mag x \<noteq> 0" by (simp add: is_inf_def)
  with True assms have "fmul x x = pInf" by (simp add: fmul_def mk_float_def pInf_def)
  then show ?thesis by (simp add: pInf_props)
next
  case False
  with assms have "fmul x x = fround False (mant x * mant x) (expt x + expt x)"
    by (simp add: fmul_def)
  then show ?thesis by (simp add: not_nan_fround sign_fround)
qed

lemma zero_props: "\<not> is_nan 0" "\<not> sign_bit 0" "mag 0 = 0" "is_finite 0"
  by (simp_all add: is_nan_def sign_bit_def mag_def is_finite_def)

lemma sval_nonneg: "\<not> sign_bit x \<Longrightarrow> 0 \<le> sval x"
  by (simp add: sval_def)

lemma fadd_nonneg:
  assumes "\<not> is_nan x \<and> \<not> sign_bit x" and "\<not> is_nan y \<and> \<not> sign_bit y"
  shows "\<not> is_nan (fadd x y) \<and> \<not> sign_bit (fadd x y)"
proof (cases "is_inf x \<or> is_inf y")
  case True
  with assms show ?thesis by (auto simp: fadd_def)
next
  case False
  let ?s = "sval x * 2 ^ nat (expt x - min (expt x) (expt y))
              + sval y * 2 ^ nat (expt y - min (expt x) (expt y))"
  have "0 \<le> ?s" using assms by (simp add: sval_nonneg)
  then have "\<not> is_nan (fround_int False ?s (min (expt x) (expt y)))
           \<and> \<not> sign_bit (fround_int False ?s (min (expt x) (expt y)))"
    by (simp add: fround_int_def not_nan_fround sign_fround mk_float_False zero_props)
  with False assms show ?thesis by (simp add: fadd_def)
qed

lemma fadd_pInf:
  assumes "\<not> is_nan y \<and> \<not> sign_bit y"
  shows "fadd pInf y = pInf"
  using assms by (simp add: fadd_def pInf_props)

lemma fadd_pInf_cases: "fadd pInf y = pInf \<or> fadd pInf y = qNaN"
  by (simp add: fadd_def pInf_props)

lemma fsqrt_pInf: "fsqrt pInf = pInf"
  by (simp add: fsqrt_def pInf_props)

lemma fsqrt_qNaN: "fsqrt qNaN = qNaN"
  by (simp add: fsqrt_def qNaN_props)

lemma fadd_qNaN: "fadd x qNaN = qNaN"
  by (simp add: fadd_def qNaN_props)

lemma fdiv_pInf_two: "fdiv pInf f_two = pInf"
  by (simp add: fdiv_def pInf_props f_two_def is_nan_def is_inf_def mag_def sign_bit_def
      mk_float_def pInf_def)

lemma fdiv_qNaN: "fdiv qNaN y = qNaN"
  by (simp add: fdiv_def qNaN_props)

lemma clamp_scale_not_finite: "clamp_scale pInf = 0" "clamp_scale qNaN = 0"
  by (simp_all add: clamp_scale_def is_finite_def pInf_def qNaN_def mag_def)

lemma eigen_max_overflow:
  assumes "fadd s00 s11 = pInf"
  shows "clamp_scale (eigen_max s00 s01 s11) = 0"
proof -
  let ?w = "fneg (fmul f_four (fsub (fmul s00 s11) (fmul s01 s01)))"
  have TT: "fmul pInf pInf = pInf"
    by (simp add: fmul_def pInf_props mk_float_def) (simp add: pInf_def)
  have e: "eigen_max s00 s01 s11 = fdiv (fadd pInf (fsqrt (fadd pInf ?w))) f_two"
    by (simp add: eigen_max_def assms TT fsub_def)
  from fadd_pInf_cases [of ?w] show ?thesis
  proof
    assume "fadd pInf ?w = pInf"
    then have "eigen_max s00 s01 s11 = pInf"
      by (simp add: e fsqrt_pInf fadd_pInf pInf_props fdiv_pInf_two)
    then show ?thesis by (simp add: clamp_scale_not_finite)
  next
    assume "fadd pInf ?w = qNaN"
    then have "eigen_max s00 s01 s11 = qNaN"
      by (simp add: e fsqrt_qNaN fadd_qNaN fdiv_qNaN)
    then show ?thesis by (simp add: clamp_scale_not_finite)
  qed
qed

lemma findMaxScale_overflow:
  assumes "is_finite a" and "0x60000000 \<le> mag a"
    and "\<not> is_nan b" and "\<not> is_nan c" and "\<not> is_nan d"
  shows "findMaxScale (Mat2D a b c d tx ty) = 0"
proof -
  have "fadd (fmul a a) (fmul b b) = pInf"
    using assms by (simp add: fmul_self_overflow fadd_pInf fmul_self_nonneg)
  moreover have "\<not> is_nan (fadd (fmul c c) (fmul d d)) \<and> \<not> sign_bit (fadd (fmul c c) (fmul d d))"
    using assms by (intro fadd_nonneg fmul_self_nonneg)
  ultimately have "fadd (fadd (fmul a a) (fmul b b)) (fadd (fmul c c) (fmul d d)) = pInf"
    by (simp add: fadd_pInf)
  then show ?thesis by (simp add: eigen_max_overflow)
qed

lemma flt_zero_iff: "flt x 0 \<longleftrightarrow> \<not> is_nan x \<and> sign_bit x \<and> mag x \<noteq> 0"
  by (auto simp: flt_def key_def zero_props)

lemma clamp_scale_nonneg: "\<not> is_nan (clamp_scale l) \<and> \<not> flt (clamp_scale l) 0"
proof (cases "\<not> is_finite l \<or> flt l 0")
  case True
  then show ?thesis by (auto simp: clamp_scale_def flt_zero_iff zero_props)
next
  case False
  then have fin: "is_finite l" and nl: "\<not> flt l 0" by simp_all
  from fin have nn: "\<not> is_nan l" "\<not> is_inf l" by (simp_all add: is_finite_def is_nan_def is_inf_def)
  have "\<not> is_nan (fsqrt l) \<and> \<not> flt (fsqrt l) 0"
  proof (cases "mag l = 0")
    case True
    with nn show ?thesis by (simp add: fsqrt_def flt_zero_iff)
  next
    case False
    with nl nn have "\<not> sign_bit l" by (simp add: flt_zero_iff)
    with False nn show ?thesis
      by (simp add: fsqrt_def flt_zero_iff not_nan_fround sign_fround)
  qed
  with False show ?thesis by (simp add: clamp_scale_def)
qed


section \<open>findMaxScale: the claims\<close>

text \<open>
  Claim C2. For every matrix, whatever its entries, \<open>findMaxScale\<close> returns a float that is
  not NaN and not below zero; and when the four entries of the linear block are finite with
  magnitude at least \<open>2^65\<close> (\<open>0x60000000\<close>, about \<open>3.7e19\<close>, so also around \<open>1e36\<close> and
  beyond), it returns exactly \<open>0\<close>. The witness is the matrix \<open>big\<close> of the test.
\<close>

theorem findMaxScale_never_negative_or_nan:
  "\<not> is_nan (findMaxScale (Mat2D a b c d tx ty))
   \<and> \<not> flt (findMaxScale (Mat2D a b c d tx ty)) 0
   \<and> ((\<forall>x \<in> {a, b, c, d}. is_finite x \<and> 0x60000000 \<le> mag x)
        \<longrightarrow> findMaxScale (Mat2D a b c d tx ty) = 0)"
proof -
  have "findMaxScale (Mat2D a b c d tx ty) = 0"
    if "\<forall>x \<in> {a, b, c, d}. is_finite x \<and> 0x60000000 \<le> mag x"
  proof -
    from that have "is_finite a" "0x60000000 \<le> mag a" "\<not> is_nan b" "\<not> is_nan c" "\<not> is_nan d"
      by (simp_all add: is_finite_def is_nan_def)
    then show ?thesis by (rule findMaxScale_overflow)
  qed
  then show ?thesis by (simp add: clamp_scale_nonneg)
qed

theorem findMaxScale_never_negative_or_nan_witness:
  "is_finite 0x7BE68733 \<and> 0x60000000 \<le> mag 0x7BE68733
   \<and> is_finite 0x7C3C8BF5 \<and> 0x60000000 \<le> mag 0x7C3C8BF5
   \<and> is_finite 0x7CD523C5 \<and> 0x60000000 \<le> mag 0x7CD523C5
   \<and> is_finite 0x7D2E532C \<and> 0x60000000 \<le> mag 0x7D2E532C
   \<and> findMaxScale (Mat2D 0x7BE68733 0x7C3C8BF5 0x7CD523C5 0x7D2E532C 0x7CDF0D96 0x7D366ED4) = 0"
proof -
  have h: "is_finite 0x7BE68733 \<and> 0x60000000 \<le> mag 0x7BE68733
   \<and> is_finite 0x7C3C8BF5 \<and> 0x60000000 \<le> mag 0x7C3C8BF5
   \<and> is_finite 0x7CD523C5 \<and> 0x60000000 \<le> mag 0x7CD523C5
   \<and> is_finite 0x7D2E532C \<and> 0x60000000 \<le> mag 0x7D2E532C"
    by (simp add: is_finite_def mag_def)
  then have "\<forall>x \<in> {0x7BE68733, 0x7C3C8BF5, 0x7CD523C5, 0x7D2E532C :: float32}.
             is_finite x \<and> 0x60000000 \<le> mag x"
    by blast
  with findMaxScale_never_negative_or_nan
         [of "0x7BE68733" "0x7C3C8BF5" "0x7CD523C5" "0x7D2E532C" "0x7CDF0D96" "0x7D366ED4"]
  have "findMaxScale (Mat2D 0x7BE68733 0x7C3C8BF5 0x7CD523C5 0x7D2E532C 0x7CDF0D96 0x7D366ED4) = 0"
    by blast
  with h show ?thesis by blast
qed

text \<open>
  Claim C3. \<open>findMaxScale\<close> depends on \<open>(a, b, c, d)\<close> only: two matrices with the same
  linear part get the same value whatever their translations are, NaN and infinity
  included; the matrix \<open>(0, 3, 6, 0, NaN, Inf)\<close> gets \<open>6\<close>; every pure translation gets
  \<open>1\<close>.
\<close>

theorem findMaxScale_ignores_translation:
  "findMaxScale (Mat2D a b c d tx ty) = findMaxScale (Mat2D a b c d tx' ty')
   \<and> findMaxScale (Mat2D 0 0x40400000 0x40C00000 0 qNaN pInf) = 0x40C00000
   \<and> findMaxScale (fromTranslate x y) = f_one"
proof -
  have 1: "findMaxScale (Mat2D a b c d tx ty) = findMaxScale (Mat2D a b c d tx' ty')"
    by simp
  have 2: "findMaxScale (Mat2D 0 0x40400000 0x40C00000 0 qNaN pInf) = 0x40C00000"
    by (simp add: fms_eval)
  have "findMaxScale (Mat2D f_one 0 0 f_one x y) = f_one"
    by (simp add: fms_eval)
  then have 3: "findMaxScale (fromTranslate x y) = f_one"
    by (simp add: fromTranslate_def)
  from 1 2 3 show ?thesis by blast
qed

section \<open>Rounding: bounds and representable values\<close>

subsection \<open>Bit lengths and exact scaling\<close>

lemma bitlen_le: "n < 2 ^ k \<Longrightarrow> bitlen n \<le> k"
proof (induction k arbitrary: n)
  case 0
  then show ?case by simp
next
  case (Suc k)
  then have "n div 2 < 2 ^ k" by simp
  then have "bitlen (n div 2) \<le> k" by (rule Suc.IH)
  then show ?case by (subst bitlen.simps) simp
qed

lemma bitlen_eq: "2 ^ k \<le> n \<Longrightarrow> n < 2 ^ Suc k \<Longrightarrow> bitlen n = Suc k"
  using bitlen_gt [of k n] bitlen_le [of n "Suc k"] by simp

lemma bitlen_pos: "n \<noteq> 0 \<Longrightarrow> 0 < bitlen n"
  using bitlen_gt [of 0 n] by simp

lemma bitlen_lower: "n \<noteq> 0 \<Longrightarrow> 2 ^ (bitlen n - 1) \<le> n"
proof (rule ccontr)
  assume n: "n \<noteq> 0" and "\<not> 2 ^ (bitlen n - 1) \<le> n"
  then have "n < 2 ^ (bitlen n - 1)" by simp
  then have "bitlen n \<le> bitlen n - 1" by (rule bitlen_le)
  with bitlen_pos [OF n] show False by simp
qed

lemma bitlen_mult_pow: "n \<noteq> 0 \<Longrightarrow> bitlen (n * 2 ^ k) = bitlen n + k"
proof -
  assume n: "n \<noteq> 0"
  let ?b = "bitlen n"
  from bitlen_pos [OF n] obtain b where b: "?b = Suc b" by (cases ?b) simp_all
  from bitlen_lower [OF n] b have lo: "2 ^ b \<le> n" by simp
  from bitlen_bound [of n] b have hi: "n < 2 ^ Suc b" by simp
  from lo have "2 ^ b * 2 ^ k \<le> n * 2 ^ k" by simp
  then have 1: "2 ^ (b + k) \<le> n * 2 ^ k" by (simp add: power_add)
  from hi have "n * 2 ^ k < 2 ^ Suc b * 2 ^ k" by simp
  then have 2: "n * 2 ^ k < 2 ^ Suc (b + k)" by (simp add: power_add)
  from bitlen_eq [OF 1 2] b show ?thesis by simp
qed

lemma rne_div_exact: "0 < k \<Longrightarrow> rne_div (m * 2 ^ k) (2 ^ k) = m"
proof -
  assume "0 < k"
  then obtain j where "k = Suc j" by (cases k) simp_all
  then show ?thesis by (simp add: rne_div_def)
qed

lemma scale_rne_exact: "scale_rne (m * 2 ^ k) (int k) = m"
  by (cases "k = 0") (simp_all add: scale_rne_def rne_div_exact)

lemma rne_div_bounds: "M div D \<le> rne_div M D" "rne_div M D \<le> M div D + 1"
  by (simp_all add: rne_div_def)

text \<open>Normal floats: decoding.\<close>

lemma normal_mant:
  assumes "2 ^ 23 \<le> mag x"
  shows "2 ^ 23 \<le> mant x" and "mant x < 2 ^ 24" and "bitlen (mant x) = 24"
proof -
  from assms show 1: "2 ^ 23 \<le> mant x" by (simp add: mant_def)
  have "mag x mod 2 ^ 23 < 2 ^ 23" by simp
  with assms show 2: "mant x < 2 ^ 24" by (simp add: mant_def)
  from 1 2 have "bitlen (mant x) = Suc 23" by (intro bitlen_eq) simp_all
  then show "bitlen (mant x) = 24" by simp
qed

lemma normal_encode:
  assumes "2 ^ 23 \<le> mag x"
  shows "int (mag x) = (expt x + 149) * 2 ^ 23 + int (mant x)"
proof -
  have "mag x = mag x div 2 ^ 23 * 2 ^ 23 + mag x mod 2 ^ 23" by simp
  then have "int (mag x) = int (mag x div 2 ^ 23) * 2 ^ 23 + int (mag x mod 2 ^ 23)"
    by (metis of_nat_add of_nat_mult of_nat_numeral of_nat_power)
  with assms show ?thesis by (simp add: mant_def expt_def algebra_simps)
qed

lemma round_mag_representable:
  assumes "2 ^ 23 \<le> mag x"
    and "- 149 \<le> expt x + j" and "int (mag x) + j * 2 ^ 23 < 0x7F800000"
  shows "round_mag (mant x * 2 ^ k) (expt x + j - int k) = nat (int (mag x) + j * 2 ^ 23)"
proof -
  from normal_mant [OF assms(1)] have m: "mant x \<noteq> 0" and bl: "bitlen (mant x) = 24" by simp_all
  have q: "quantum (mant x * 2 ^ k) (expt x + j - int k) = expt x + j"
    using assms(2) by (simp add: quantum_def bitlen_mult_pow [OF m] bl)
  have "int (nat (expt x + j + 149) * 2 ^ 23 + mant x) = int (mag x) + j * 2 ^ 23"
    using assms(2) by (simp add: normal_encode [OF assms(1)] algebra_simps)
  then have e: "nat (expt x + j + 149) * 2 ^ 23 + mant x = nat (int (mag x) + j * 2 ^ 23)"
    by linarith
  from assms(3) have lt: "nat (int (mag x) + j * 2 ^ 23) < 0x7F800000" by linarith
  have "round_mag (mant x * 2 ^ k) (expt x + j - int k)
        = min (nat (expt x + j + 149) * 2 ^ 23 + mant x) 0x7F800000"
    using m by (simp add: round_mag_def q scale_rne_exact)
  also have "\<dots> = nat (int (mag x) + j * 2 ^ 23)"
    unfolding e using lt by simp
  finally show ?thesis .
qed

subsection \<open>Negation, finite operands and representable results\<close>

lemma mant_expt_shift:
  assumes "2 ^ 23 \<le> mag x" and "mag y = mag x + k * 2 ^ 23"
  shows "mant y = mant x" and "expt y = expt x + int k"
proof -
  from assms have y: "2 ^ 23 \<le> mag y" by simp
  have d: "mag y div 2 ^ 23 = mag x div 2 ^ 23 + k" and m: "mag y mod 2 ^ 23 = mag x mod 2 ^ 23"
    unfolding assms(2) by simp_all
  from assms(1) y m show "mant y = mant x" by (simp add: mant_def)
  from assms(1) y d show "expt y = expt x + int k" by (simp add: expt_def)
qed

lemma finite_iff: "is_finite x \<longleftrightarrow> \<not> is_nan x \<and> \<not> is_inf x"
  by (auto simp: is_finite_def is_nan_def is_inf_def)

lemma fneg_props [simp]:
  "is_nan (fneg x) = is_nan x" "is_inf (fneg x) = is_inf x" "is_finite (fneg x) = is_finite x"
  "mant (fneg x) = mant x" "expt (fneg x) = expt x" "sval (fneg x) = - sval x"
  by (simp_all add: is_nan_def is_inf_def is_finite_def mant_def expt_def sval_def mag_fneg sign_fneg)

lemma fneg_mk_float: "m < 2 ^ 31 \<Longrightarrow> fneg (mk_float s m) = mk_float (\<not> s) m"
  by (rule float_eqI) (simp_all add: mag_fneg sign_fneg mag_mk_float sign_mk_float)

lemma fneg_fround: "fneg (fround s M e) = fround (\<not> s) M e"
  using round_mag_le [of M e] by (simp add: fround_def fneg_mk_float)

lemma fmul_commute: "fmul x y = fmul y x"
proof -
  have s: "(sign_bit x \<noteq> sign_bit y) = (sign_bit y \<noteq> sign_bit x)" by auto
  show ?thesis
    unfolding fmul_def s by (simp add: mult.commute add.commute disj_commute)
qed

lemma fmul_fneg_right:
  assumes "is_finite x" and "is_finite y"
  shows "fmul x (fneg y) = fneg (fmul x y)"
  using assms by (auto simp: fmul_def finite_iff fneg_fround sign_fneg)

lemma fmul_fneg_fneg: "fmul (fneg x) (fneg x) = fmul x x"
  by (simp add: fmul_def mag_fneg sign_fneg)

lemma fadd_fneg_self:
  assumes "is_finite x"
  shows "fadd (fneg x) x = 0" and "fadd x (fneg x) = 0"
proof -
  from assms show "fadd x (fneg x) = 0"
    by (simp add: fadd_def finite_iff fround_int_def sign_fneg mk_float_def)
  then show "fadd (fneg x) x = 0" by (simp add: fadd_commute)
qed

lemma mag_lt: "mag x < 2 ^ 31"
  by (simp add: mag_def)

lemma fround_int_pos: "0 < M \<Longrightarrow> fround_int z (int M) e = fround False M e"
  by (simp add: fround_int_def)

lemma zero_decode: "mant 0 = 0" "expt 0 = - 149" "sval 0 = 0" "\<not> is_inf 0"
  by (simp_all add: mant_def expt_def sval_def zero_props is_inf_def)

lemma expt_ge: "- 149 \<le> expt x"
  by (simp add: expt_def Suc_le_eq div_greater_zero_iff)

lemma mk_float_self: "\<not> sign_bit x \<Longrightarrow> mk_float False (mag x) = x"
  using mag_lt [of x] by (intro float_eqI) (simp_all add: mag_mk_float sign_mk_float)

lemma fadd_finite:
  "is_finite x \<Longrightarrow> is_finite y \<Longrightarrow>
   fadd x y = fround_int (sign_bit x \<and> sign_bit y)
             (sval x * 2 ^ nat (expt x - min (expt x) (expt y))
              + sval y * 2 ^ nat (expt y - min (expt x) (expt y)))
             (min (expt x) (expt y))"
  by (simp add: fadd_def finite_iff)

lemma fround_representable:
  assumes "2 ^ 23 \<le> mag x" and "is_finite x" and "\<not> sign_bit x" and "e = expt x - int k"
  shows "fround False (mant x * 2 ^ k) e = x"
proof -
  have "round_mag (mant x * 2 ^ k) (expt x + 0 - int k) = nat (int (mag x) + 0 * 2 ^ 23)"
    using assms(1,2) expt_ge [of x] by (intro round_mag_representable) (simp_all add: is_finite_def)
  then have "round_mag (mant x * 2 ^ k) e = mag x" using assms(4) by simp
  then show ?thesis using assms(3) by (simp add: fround_def mk_float_self)
qed

lemma fround_representable_shift:
  assumes "2 ^ 23 \<le> mag x" and "mag x + j * 2 ^ 23 < 0x7F800000" and "e = expt x + int j - int k"
  shows "fround False (mant x * 2 ^ k) e = mk_float False (mag x + j * 2 ^ 23)"
proof -
  have "round_mag (mant x * 2 ^ k) (expt x + int j - int k) = nat (int (mag x) + int j * 2 ^ 23)"
    using assms(1,2) expt_ge [of x] by (intro round_mag_representable) simp_all
  also have "nat (int (mag x) + int j * 2 ^ 23) = mag x + j * 2 ^ 23"
    by (simp add: nat_add_distrib nat_mult_distrib nat_power_eq)
  finally show ?thesis using assms(3) by (simp add: fround_def)
qed

lemma fadd_zero_right:
  assumes "2 ^ 23 \<le> mag x" and "is_finite x" and "\<not> sign_bit x" and "mag z = 0"
  shows "fadd x z = x"
proof -
  from assms(4) have z: "is_finite z" "expt z = - 149" "sval z = 0"
    by (simp_all add: is_finite_def mant_def expt_def sval_def)
  from normal_mant [OF assms(1)] have m: "0 < mant x * 2 ^ nat (expt x + 149)" by simp
  have mn: "min (expt x) (expt z) = - 149" using expt_ge [of x] z by simp
  have sv: "sval x * 2 ^ nat (expt x - - 149) + sval z * 2 ^ nat (expt z - - 149)
            = int (mant x * 2 ^ nat (expt x + 149))"
    using assms(3) z by (simp add: sval_def)
  have "fadd x z = fround False (mant x * 2 ^ nat (expt x + 149)) (- 149)"
    unfolding fadd_finite [OF assms(2) z(1)] mn sv using m by (rule fround_int_pos)
  also have "\<dots> = x"
    using assms(1-3) expt_ge [of x] by (intro fround_representable) simp_all
  finally show ?thesis .
qed

lemma fadd_self:
  assumes "2 ^ 23 \<le> mag x" and "mag x + 2 ^ 23 < 0x7F800000" and "\<not> sign_bit x"
  shows "fadd x x = mk_float False (mag x + 2 ^ 23)"
proof -
  from assms(2) have f: "is_finite x" by (simp add: is_finite_def)
  from normal_mant [OF assms(1)] have m: "0 < mant x * 2 ^ 1" by simp
  have sv: "sval x * 2 ^ nat (expt x - expt x) + sval x * 2 ^ nat (expt x - expt x)
            = int (mant x * 2 ^ 1)"
    using assms(3) by (simp add: sval_def)
  have "fadd x x = fround False (mant x * 2 ^ 1) (expt x)"
    unfolding fadd_finite [OF f f] min.idem sv using m by (rule fround_int_pos)
  also have "\<dots> = mk_float False (mag x + 1 * 2 ^ 23)"
    using assms(1,2) by (intro fround_representable_shift) simp_all
  finally show ?thesis by simp
qed

subsection \<open>Bounds on a rounded magnitude\<close>

lemma scale_rne_le:
  assumes "int (bitlen M) - 24 \<le> d"
  shows "scale_rne M d \<le> 2 ^ 24"
proof (cases "d \<le> 0")
  case True
  then have b: "bitlen M + nat (- d) \<le> 24" using assms by linarith
  have "M * 2 ^ nat (- d) < 2 ^ bitlen M * 2 ^ nat (- d)"
    using bitlen_bound [of M] by simp
  also have "\<dots> = 2 ^ (bitlen M + nat (- d))" by (simp add: power_add)
  also have "\<dots> \<le> (2::nat) ^ 24" using b by (intro power_increasing) simp_all
  finally show ?thesis using True by (simp add: scale_rne_def)
next
  case False
  then have b: "bitlen M \<le> 24 + nat d" using assms by linarith
  have "M < 2 ^ bitlen M" by (rule bitlen_bound)
  also have "\<dots> \<le> (2::nat) ^ (24 + nat d)" using b by (intro power_increasing) simp_all
  finally have "M < 2 ^ 24 * 2 ^ nat d" by (simp add: power_add)
  then have "M div 2 ^ nat d < 2 ^ 24"
    by (simp add: less_mult_imp_div_less)
  with rne_div_bounds(2) [of M "2 ^ nat d"] have "rne_div M (2 ^ nat d) \<le> 2 ^ 24" by linarith
  with False show ?thesis by (simp add: scale_rne_def)
qed

lemma round_mag_upper: "round_mag M e \<le> nat (quantum M e + 149) * 2 ^ 23 + 2 ^ 24"
proof (cases "M = 0")
  case True
  then show ?thesis by (simp add: round_mag_def)
next
  case False
  have "int (bitlen M) - 24 \<le> quantum M e - e" by (simp add: quantum_def)
  then have "scale_rne M (quantum M e - e) \<le> 2 ^ 24" by (rule scale_rne_le)
  with False show ?thesis by (simp add: round_mag_def min_def)
qed

lemma round_mag_lower:
  assumes "M \<noteq> 0" and "nat (quantum M e + 149) * 2 ^ 23 \<le> 0x7F800000"
  shows "nat (quantum M e + 149) * 2 ^ 23 \<le> round_mag M e"
  using assms by (simp add: round_mag_def min_def)

lemma round_mag_shift:
  assumes "M \<noteq> 0" and "- 149 \<le> int (bitlen M) + e - 24"
    and "nat (quantum M e + 149) * 2 ^ 23 + 2 ^ 24 + j * 2 ^ 23 \<le> 0x7F800000"
  shows "round_mag M (e + int j) = round_mag M e + j * 2 ^ 23"
proof -
  let ?q = "quantum M e"
  let ?R = "scale_rne M (?q - e)"
  have q: "?q = int (bitlen M) + e - 24" using assms(2) by (simp add: quantum_def)
  have q': "quantum M (e + int j) = ?q + int j" using assms(2) by (simp add: quantum_def)
  have "int (bitlen M) - 24 \<le> ?q - e" by (simp add: quantum_def)
  then have R: "?R \<le> 2 ^ 24" by (rule scale_rne_le)
  have n: "nat (?q + int j + 149) = nat (?q + 149) + j" using q assms(2) by linarith
  have 1: "round_mag M e = nat (?q + 149) * 2 ^ 23 + ?R"
    using assms(1,3) R by (simp add: round_mag_def min_def)
  have "round_mag M (e + int j) = min (nat (?q + 149 + int j) * 2 ^ 23 + ?R) 0x7F800000"
    using assms(1) by (simp add: round_mag_def q' algebra_simps)
  also have "nat (?q + 149 + int j) = nat (?q + 149) + j" using n by (simp add: algebra_simps)
  also have "min ((nat (?q + 149) + j) * 2 ^ 23 + ?R) 0x7F800000
             = nat (?q + 149) * 2 ^ 23 + ?R + j * 2 ^ 23"
    using assms(3) R by (simp add: min_def algebra_simps)
  finally show ?thesis using 1 by simp
qed

lemma bitlen_mult_le: "bitlen (a * b) \<le> bitlen a + bitlen b"
proof -
  have "a * b < 2 ^ bitlen a * 2 ^ bitlen b"
  proof (cases "a = 0 \<or> b = 0")
    case True
    then show ?thesis by auto
  next
    case False
    then show ?thesis
      using bitlen_bound [of a] bitlen_bound [of b] by (intro mult_strict_mono) simp_all
  qed
  then have "a * b < 2 ^ (bitlen a + bitlen b)" by (simp add: power_add)
  then show ?thesis by (rule bitlen_le)
qed

lemma magnitude_le_one:
  assumes "mag x \<le> 0x3F800000"
  shows "int (bitlen (mant x)) + expt x \<le> 1"
proof (cases "mag x < 2 ^ 23")
  case True
  then have "bitlen (mant x) \<le> 23" by (intro bitlen_le) (simp add: mant_def)
  with True show ?thesis by (simp add: expt_def)
next
  case False
  then have n: "2 ^ 23 \<le> mag x" by simp
  from assms have "mag x div 2 ^ 23 \<le> 0x3F800000 div 2 ^ 23" by (rule div_le_mono)
  then have "mag x div 2 ^ 23 \<le> 127" by simp
  with False normal_mant(3) [OF n] show ?thesis by (simp add: expt_def)
qed

lemma fmul_finite_le_one:
  assumes "mag x \<le> 0x3F800000" and "mag y \<le> 0x3F800000"
  shows "is_finite (fmul x y)"
proof -
  from assms have f: "\<not> is_nan x" "\<not> is_nan y" "\<not> is_inf x" "\<not> is_inf y"
    by (simp_all add: is_nan_def is_inf_def)
  let ?M = "mant x * mant y" and ?e = "expt x + expt y"
  have "int (bitlen ?M) \<le> int (bitlen (mant x)) + int (bitlen (mant y))"
    using bitlen_mult_le [of "mant x" "mant y"] by linarith
  with magnitude_le_one [OF assms(1)] magnitude_le_one [OF assms(2)]
  have "int (bitlen ?M) + ?e - 24 \<le> - 22" by linarith
  then have "quantum ?M ?e \<le> - 22" by (simp add: quantum_def)
  then have "nat (quantum ?M ?e + 149) \<le> 127" by linarith
  then have "nat (quantum ?M ?e + 149) * 2 ^ 23 \<le> 127 * (2 ^ 23 :: nat)"
    by (rule mult_le_mono1)
  with round_mag_upper [of ?M ?e] have "round_mag ?M ?e < 0x7F800000" by simp
  with f show ?thesis by (simp add: fmul_def is_finite_def mag_fround)
qed

lemma rotation_cross_term:
  assumes "mag c \<le> 0x3F800000" and "mag s \<le> 0x3F800000"
  shows "fadd (fmul c (fneg s)) (fmul s c) = 0"
proof -
  from assms have f: "is_finite c" "is_finite s" by (simp_all add: is_finite_def)
  have "fadd (fmul c (fneg s)) (fmul s c) = fadd (fneg (fmul c s)) (fmul c s)"
    by (simp add: fmul_fneg_right [OF f] fmul_commute [of s c])
  also have "\<dots> = 0"
    using fmul_finite_le_one [OF assms] by (rule fadd_fneg_self)
  finally show ?thesis .
qed

section \<open>findMaxScale of a rotation\<close>

text \<open>
  For the matrix \<open>(c, s, -s, c)\<close> both diagonal entries of \<open>S\<close> are the squared norm
  \<open>n = c * c + s * s\<close> as binary32 computes it, and the off-diagonal entry is an exact zero.
  Then the discriminant is an exact zero as well, the larger eigenvalue is \<open>n\<close> itself,
  and the result is \<open>sqrtf(n)\<close>.
\<close>

lemma near_one_decode:
  assumes "0x3F000000 \<le> mag n" and "mag n \<le> 0x40000000"
  shows "2 ^ 23 \<le> mag n" and "is_finite n" and "- 24 \<le> expt n" and "expt n \<le> - 22"
    and "2 ^ 46 \<le> mant n * mant n" and "mant n * mant n < 2 ^ 48"
proof -
  from assms show n: "2 ^ 23 \<le> mag n" by simp
  from assms show "is_finite n" by (simp add: is_finite_def)
  from assms(1) have "0x3F000000 div 2 ^ 23 \<le> mag n div 2 ^ 23" by (rule div_le_mono)
  then have lo: "126 \<le> mag n div 2 ^ 23" by simp
  from assms(2) have "mag n div 2 ^ 23 \<le> 0x40000000 div 2 ^ 23" by (rule div_le_mono)
  then have hi: "mag n div 2 ^ 23 \<le> 128" by simp
  from n lo show "- 24 \<le> expt n" by (simp add: expt_def)
  from n hi show "expt n \<le> - 22" by (simp add: expt_def)
  from normal_mant [OF n] have m: "2 ^ 23 \<le> mant n" "mant n < 2 ^ 24" by simp_all
  have "2 ^ 23 * 2 ^ 23 \<le> mant n * mant n" using m(1) by (intro mult_mono) simp_all
  then show "2 ^ 46 \<le> mant n * mant n" by simp
  have "mant n * mant n < 2 ^ 24 * 2 ^ 24" using m by (intro mult_strict_mono) simp_all
  then show "mant n * mant n < 2 ^ 48" by simp
qed

lemma near_one_square:
  assumes "0x3F000000 \<le> mag n" and "mag n \<le> 0x40000000"
  defines "P \<equiv> round_mag (mant n * mant n) (expt n + expt n)"
  shows "fmul n n = mk_float False P" and "2 ^ 23 \<le> P" and "P + 2 ^ 24 < 0x7F800000"
    and "round_mag (mant n * mant n) (expt n + expt n + 2) = P + 2 ^ 24"
proof -
  note d = near_one_decode [OF assms(1,2)]
  let ?M = "mant n * mant n" and ?e = "expt n + expt n"
  from d(2) have f: "\<not> is_nan n" "\<not> is_inf n" by (simp_all add: finite_iff)
  then show "fmul n n = mk_float False P" by (simp add: fmul_def fround_def P_def)
  have "(0::nat) < 2 ^ 46" by simp
  with d(5) have M: "?M \<noteq> 0" by linarith
  from bitlen_gt [OF d(5)] have b1: "47 \<le> bitlen ?M" by simp
  from bitlen_le [OF d(6)] have b2: "bitlen ?M \<le> 48" .
  from b1 d(3) have u: "- 149 \<le> int (bitlen ?M) + ?e - 24" by linarith
  then have q: "quantum ?M ?e = int (bitlen ?M) + ?e - 24" by (simp add: quantum_def)
  from q b1 d(3) have q1: "124 \<le> nat (quantum ?M ?e + 149)" by linarith
  from q b2 d(4) have q2: "nat (quantum ?M ?e + 149) \<le> 129" by linarith
  from q1 have m1: "124 * 2 ^ 23 \<le> nat (quantum ?M ?e + 149) * (2 ^ 23 :: nat)"
    by (rule mult_le_mono1)
  from q2 have m2: "nat (quantum ?M ?e + 149) * (2 ^ 23 :: nat) \<le> 129 * 2 ^ 23"
    by (rule mult_le_mono1)
  from m2 have "nat (quantum ?M ?e + 149) * 2 ^ 23 \<le> (0x7F800000 :: nat)" by simp
  from round_mag_lower [OF M this] m1 show "2 ^ 23 \<le> P" by (simp add: P_def)
  from round_mag_upper [of ?M ?e] m2 show "P + 2 ^ 24 < 0x7F800000" by (simp add: P_def)
  have "round_mag ?M (?e + int 2) = round_mag ?M ?e + 2 * 2 ^ 23"
    using M u m2 by (intro round_mag_shift) simp_all
  then show "round_mag ?M (?e + 2) = P + 2 ^ 24" by (simp add: P_def)
qed

lemma fmul_finite:
  "is_finite x \<Longrightarrow> is_finite y \<Longrightarrow>
   fmul x y = fround (sign_bit x \<noteq> sign_bit y) (mant x * mant y) (expt x + expt y)"
  by (simp add: fmul_def finite_iff)

lemma fdiv_finite:
  "is_finite x \<Longrightarrow> is_finite y \<Longrightarrow> mag y \<noteq> 0 \<Longrightarrow>
   fdiv x y = fround (sign_bit x \<noteq> sign_bit y)
             (sticky (mant x * 2 ^ 64 div mant y) (mant x * 2 ^ 64 mod mant y \<noteq> 0))
             (expt x - expt y - 65)"
  by (simp add: fdiv_def finite_iff)

lemma four_decode: "mant f_four = 2 ^ 23" "expt f_four = - 21" "\<not> sign_bit f_four" "is_finite f_four"
  by (simp_all add: f_four_def mant_def expt_def sign_bit_def is_finite_def mag_def)

lemma two_decode: "mant f_two = 2 ^ 23" "expt f_two = - 22" "\<not> sign_bit f_two" "is_finite f_two"
  "mag f_two \<noteq> 0"
  by (simp_all add: f_two_def mant_def expt_def sign_bit_def is_finite_def mag_def)

lemma mk_float_False_props:
  assumes "m < 0x7F800000"
  shows "mag (mk_float False m) = m" "\<not> sign_bit (mk_float False m)" "is_finite (mk_float False m)"
  using assms by (simp_all add: mag_mk_float sign_mk_float is_finite_def)

lemma eigen_max_diag:
  assumes "\<not> sign_bit n" and "0x3F000000 \<le> mag n" and "mag n \<le> 0x40000000"
  shows "eigen_max n 0 n = n"
proof -
  note d = near_one_decode [OF assms(2,3)]
  let ?P = "round_mag (mant n * mant n) (expt n + expt n)"
  note sq = near_one_square [OF assms(2,3)]
  let ?T = "mk_float False (mag n + 2 ^ 23)"
  let ?p = "mk_float False ?P"
  let ?X = "mk_float False (?P + 2 ^ 24)"
  \<comment> \<open>the trace\<close>
  have T: "fadd n n = ?T" using d(1) assms by (intro fadd_self) simp_all
  have Tm: "mag ?T = mag n + 1 * 2 ^ 23" "\<not> sign_bit ?T" "is_finite ?T"
    using assms(3) by (simp_all add: mk_float_False_props)
  have Td: "mant ?T = mant n" "expt ?T = expt n + int 1"
    by (rule mant_expt_shift [OF d(1) Tm(1)])+
  \<comment> \<open>the determinant\<close>
  have pm: "mag ?p = ?P" "\<not> sign_bit ?p" "is_finite ?p"
    using sq(3) by (simp_all add: mk_float_False_props)
  have pn: "2 ^ 23 \<le> mag ?p" using sq(2) pm(1) by simp
  have z: "fmul 0 0 = 0"
    by (simp add: fmul_def zero_props zero_decode fround_def round_mag_def mk_float_def)
  have "mag (fneg 0) = 0" by (simp add: mag_fneg zero_props)
  then have det: "fsub ?p 0 = ?p"
    unfolding fsub_def using pn pm by (intro fadd_zero_right) simp_all
  \<comment> \<open>four times the determinant, and the square of the trace\<close>
  have "fmul f_four ?p = fround False (mant ?p * 2 ^ 23) (expt ?p + int 2 - int 23)"
    unfolding fmul_finite [OF four_decode(4) pm(3)]
    using pm(2) by (simp add: four_decode mult.commute)
  also have "\<dots> = mk_float False (mag ?p + 2 * 2 ^ 23)"
    using pn pm(1) sq(3) by (intro fround_representable_shift) simp_all
  finally have X1: "fmul f_four ?p = ?X" using pm(1) by simp
  have ee: "expt n + int 1 + (expt n + int 1) = expt n + expt n + 2" by simp
  have "fmul ?T ?T = fround False (mant n * mant n) (expt n + expt n + 2)"
    unfolding fmul_finite [OF Tm(3) Tm(3)] Td ee by simp
  then have X2: "fmul ?T ?T = ?X" by (simp only: fround_def sq(4))
  have Xf: "is_finite ?X" using sq(3) by (simp add: mk_float_False_props)
  have disc: "fsub ?X ?X = 0" unfolding fsub_def using Xf by (rule fadd_fneg_self)
  have sq0: "fsqrt 0 = 0" by (simp add: fsqrt_def zero_props)
  have T0: "fadd ?T 0 = ?T"
    using Tm d(1) by (intro fadd_zero_right) (simp_all add: zero_props)
  \<comment> \<open>halving the trace\<close>
  have "mant n * 2 ^ 64 div 2 ^ 23 = mant n * 2 ^ 41" by simp
  moreover have "mant n * 2 ^ 64 mod 2 ^ 23 = 0" by simp
  ultimately have "fdiv ?T f_two = fround False (mant n * 2 ^ 42) (expt n - int 42)"
    unfolding fdiv_finite [OF Tm(3) two_decode(4,5)] Td
    using Tm(2) by (simp add: two_decode sticky_def mult.commute)
  also have "\<dots> = n"
    using d(1,2) assms(1) by (intro fround_representable) simp_all
  finally have half: "fdiv ?T f_two = n" .
  show ?thesis
    unfolding eigen_max_def T sq(1) z det X1 X2 disc sq0 T0 half ..
qed

lemma clamp_scale_positive:
  assumes "\<not> sign_bit n" and "is_finite n"
  shows "clamp_scale n = fsqrt n"
  using assms by (simp add: clamp_scale_def flt_def key_def zero_props)

lemma rotation_matrix_sqrt:
  assumes "mag c \<le> 0x3F800000" and "mag s \<le> 0x3F800000"
    and "\<not> sign_bit (fadd (fmul c c) (fmul s s))"
    and "0x3F000000 \<le> mag (fadd (fmul c c) (fmul s s))"
    and "mag (fadd (fmul c c) (fmul s s)) \<le> 0x40000000"
  shows "findMaxScale (Mat2D c s (fneg s) c tx ty) = fsqrt (fadd (fmul c c) (fmul s s))"
proof -
  let ?n = "fadd (fmul c c) (fmul s s)"
  have 1: "fadd (fmul (fneg s) (fneg s)) (fmul c c) = ?n"
    by (simp add: fmul_fneg_fneg fadd_commute)
  have 2: "fadd (fmul c (fneg s)) (fmul s c) = 0"
    using assms(1,2) by (rule rotation_cross_term)
  have 3: "eigen_max ?n 0 ?n = ?n"
    using assms(3-5) by (rule eigen_max_diag)
  have 4: "clamp_scale ?n = fsqrt ?n"
    using assms(3) near_one_decode(2) [OF assms(4,5)] by (rule clamp_scale_positive)
  show ?thesis
    by (simp only: findMaxScale.simps 1 2 3 4)
qed

subsection \<open>The square root near one\<close>

lemma isqrt_less: "N < A * A \<Longrightarrow> isqrt N < A"
proof (rule ccontr)
  assume N: "N < A * A" and "\<not> isqrt N < A"
  then have "A \<le> isqrt N" by simp
  then have "A * A \<le> isqrt N * isqrt N" by (intro mult_mono) simp_all
  with isqrt_correct [of N] N show False by linarith
qed

lemma isqrt_ge: "A * A \<le> N \<Longrightarrow> A \<le> isqrt N"
proof (rule ccontr)
  assume N: "A * A \<le> N" and "\<not> A \<le> isqrt N"
  then have "isqrt N + 1 \<le> A" by simp
  then have "(isqrt N + 1) * (isqrt N + 1) \<le> A * A" by (intro mult_mono) simp_all
  with isqrt_correct [of N] N show False by linarith
qed

lemma sticky_bounds: "2 * q \<le> sticky q b" "sticky q b \<le> 2 * q + 1"
  by (simp_all add: sticky_def)

lemma fsqrt_finite:
  assumes "is_finite x" and "mag x \<noteq> 0" and "\<not> sign_bit x"
  shows "fsqrt x = fround False
             (sticky (isqrt (mant x * 2 ^ (if even (expt x) then 52 else 53)))
                     (isqrt (mant x * 2 ^ (if even (expt x) then 52 else 53))
                        * isqrt (mant x * 2 ^ (if even (expt x) then 52 else 53))
                      \<noteq> mant x * 2 ^ (if even (expt x) then 52 else 53)))
             ((expt x - (if even (expt x) then 52 else 53)) div 2 - 1)"
  using assms by (simp add: fsqrt_def finite_iff)

lemma fsqrt_above_one:
  assumes "\<not> sign_bit n" and "0x3F800000 \<le> mag n" and "mag n \<le> 0x3F800800"
  shows "0x3F800000 \<le> mag (fsqrt n)" and "mag (fsqrt n) \<le> 0x3F800800"
proof -
  from assms have norm: "2 ^ 23 \<le> mag n" and fin: "is_finite n" and nz: "mag n \<noteq> 0"
    by (simp_all add: is_finite_def)
  from assms(2) have "0x3F800000 div 2 ^ 23 \<le> mag n div 2 ^ 23" by (rule div_le_mono)
  moreover from assms(3) have "mag n div 2 ^ 23 \<le> 0x3F800800 div 2 ^ 23" by (rule div_le_mono)
  ultimately have E: "mag n div 2 ^ 23 = 127" by simp
  with norm have e: "expt n = - 23" by (simp add: expt_def)
  have "mag n = mag n div 2 ^ 23 * 2 ^ 23 + mag n mod 2 ^ 23" by simp
  with E have "mag n = 127 * 2 ^ 23 + mag n mod 2 ^ 23" by simp
  with assms(3) have "mag n mod 2 ^ 23 \<le> 2 ^ 11" by simp
  with norm have m1: "2 ^ 23 \<le> mant n" and m2: "mant n \<le> 2 ^ 23 + 2 ^ 11"
    by (simp_all add: mant_def)
  let ?N = "mant n * 2 ^ 53"
  let ?s = "isqrt ?N"
  let ?V = "sticky ?s (?s * ?s \<noteq> ?N)"
  have "2 ^ 23 * 2 ^ 53 \<le> ?N" using m1 by (intro mult_mono) simp_all
  then have "2 ^ 38 * 2 ^ 38 \<le> ?N" by simp
  then have s1: "2 ^ 38 \<le> ?s" by (rule isqrt_ge)
  have "?N \<le> (2 ^ 23 + 2 ^ 11) * 2 ^ 53" using m2 by (intro mult_mono) simp_all
  then have "?N < (2 ^ 38 + 2 ^ 26) * (2 ^ 38 + 2 ^ 26)" by simp
  then have s2: "?s < 2 ^ 38 + 2 ^ 26" by (rule isqrt_less)
  from s1 sticky_bounds(1) [of ?s "?s * ?s \<noteq> ?N"] have V1: "2 ^ 39 \<le> ?V" by simp
  from s2 sticky_bounds(2) [of ?s "?s * ?s \<noteq> ?N"] have V2: "?V < 2 ^ 39 + 2 ^ 27" by simp
  from V2 have "?V < 2 ^ Suc 39" by simp
  with V1 have bl: "bitlen ?V = 40" using bitlen_eq [of 39 ?V] by simp
  have V0: "?V \<noteq> 0" using V1 by simp
  have q: "quantum ?V (- 39) = - 23" unfolding quantum_def bl by simp
  have sc: "scale_rne ?V (- 23 - - 39) = rne_div ?V (2 ^ 16)" by (simp add: scale_rne_def)
  from V1 have "2 ^ 39 div 2 ^ 16 \<le> ?V div 2 ^ 16" by (rule div_le_mono)
  then have d1: "2 ^ 23 \<le> ?V div 2 ^ 16" by simp
  from V2 have "?V \<le> 2 ^ 39 + 2 ^ 27 - 1" by simp
  then have "?V div 2 ^ 16 \<le> (2 ^ 39 + 2 ^ 27 - 1) div 2 ^ 16" by (rule div_le_mono)
  then have d2: "?V div 2 ^ 16 \<le> 2 ^ 23 + 2 ^ 11 - 1" by simp
  from d1 rne_div_bounds(1) [of ?V "2 ^ 16"] have R1: "2 ^ 23 \<le> rne_div ?V (2 ^ 16)" by simp
  from d2 rne_div_bounds(2) [of ?V "2 ^ 16"] have R2: "rne_div ?V (2 ^ 16) \<le> 2 ^ 23 + 2 ^ 11"
    by simp
  have rm: "round_mag ?V (- 39) = 126 * 2 ^ 23 + rne_div ?V (2 ^ 16)"
    unfolding round_mag_def q sc using V0 R2 by (simp add: min_def)
  have "fsqrt n = fround False ?V (- 39)"
    unfolding fsqrt_finite [OF fin nz assms(1)] e by simp
  then have "mag (fsqrt n) = 126 * 2 ^ 23 + rne_div ?V (2 ^ 16)"
    by (simp only: mag_fround rm)
  with R1 R2 show "0x3F800000 \<le> mag (fsqrt n)" and "mag (fsqrt n) \<le> 0x3F800800"
    by simp_all
qed

lemma fsqrt_below_one:
  assumes "\<not> sign_bit n" and "0x3F7FF000 \<le> mag n" and "mag n < 0x3F800000"
  shows "0x3F7FF000 \<le> mag (fsqrt n)" and "mag (fsqrt n) \<le> 0x3F800000"
proof -
  from assms have norm: "2 ^ 23 \<le> mag n" and fin: "is_finite n" and nz: "mag n \<noteq> 0"
    by (simp_all add: is_finite_def)
  from assms(2) have "0x3F7FF000 div 2 ^ 23 \<le> mag n div 2 ^ 23" by (rule div_le_mono)
  moreover from assms(3) have "mag n div 2 ^ 23 < 127"
    by (simp add: less_mult_imp_div_less)
  ultimately have E: "mag n div 2 ^ 23 = 126" by simp
  with norm have e: "expt n = - 24" by (simp add: expt_def)
  have "mag n = mag n div 2 ^ 23 * 2 ^ 23 + mag n mod 2 ^ 23" by simp
  with E have "mag n = 126 * 2 ^ 23 + mag n mod 2 ^ 23" by simp
  with assms(2) have "2 ^ 23 - 2 ^ 12 \<le> mag n mod 2 ^ 23" by simp
  moreover have "mag n mod 2 ^ 23 < 2 ^ 23" by simp
  ultimately have m1: "2 ^ 24 - 2 ^ 12 \<le> mant n" and m2: "mant n < 2 ^ 24"
    using norm by (simp_all add: mant_def)
  let ?N = "mant n * 2 ^ 52"
  let ?s = "isqrt ?N"
  let ?V = "sticky ?s (?s * ?s \<noteq> ?N)"
  have "(2 ^ 24 - 2 ^ 12) * 2 ^ 52 \<le> ?N" using m1 by (intro mult_mono) simp_all
  then have "(2 ^ 38 - 2 ^ 26) * (2 ^ 38 - 2 ^ 26) \<le> ?N" by simp
  then have s1: "2 ^ 38 - 2 ^ 26 \<le> ?s" by (rule isqrt_ge)
  have "?N < 2 ^ 24 * 2 ^ 52" using m2 by simp
  then have "?N < 2 ^ 38 * 2 ^ 38" by simp
  then have s2: "?s < 2 ^ 38" by (rule isqrt_less)
  from s1 sticky_bounds(1) [of ?s "?s * ?s \<noteq> ?N"] have V1: "2 ^ 39 - 2 ^ 27 \<le> ?V" by simp
  from s2 sticky_bounds(2) [of ?s "?s * ?s \<noteq> ?N"] have V2: "?V < 2 ^ 39" by simp
  from V1 have "2 ^ 38 \<le> ?V" by simp
  with V2 have bl: "bitlen ?V = 39" using bitlen_eq [of 38 ?V] by simp
  have V0: "?V \<noteq> 0" using V1 by simp
  have q: "quantum ?V (- 39) = - 24" unfolding quantum_def bl by simp
  have sc: "scale_rne ?V (- 24 - - 39) = rne_div ?V (2 ^ 15)" by (simp add: scale_rne_def)
  from V1 have "(2 ^ 39 - 2 ^ 27) div 2 ^ 15 \<le> ?V div 2 ^ 15" by (rule div_le_mono)
  then have d1: "2 ^ 24 - 2 ^ 12 \<le> ?V div 2 ^ 15" by simp
  from V2 have "?V \<le> 2 ^ 39 - 1" by simp
  then have "?V div 2 ^ 15 \<le> (2 ^ 39 - 1) div 2 ^ 15" by (rule div_le_mono)
  then have d2: "?V div 2 ^ 15 \<le> 2 ^ 24 - 1" by simp
  from d1 rne_div_bounds(1) [of ?V "2 ^ 15"] have R1: "2 ^ 24 - 2 ^ 12 \<le> rne_div ?V (2 ^ 15)"
    by simp
  from d2 rne_div_bounds(2) [of ?V "2 ^ 15"] have R2: "rne_div ?V (2 ^ 15) \<le> 2 ^ 24"
    by simp
  have rm: "round_mag ?V (- 39) = 125 * 2 ^ 23 + rne_div ?V (2 ^ 15)"
    unfolding round_mag_def q sc using V0 R2 by (simp add: min_def)
  have "fsqrt n = fround False ?V (- 39)"
    unfolding fsqrt_finite [OF fin nz assms(1)] e by simp
  then have "mag (fsqrt n) = 125 * 2 ^ 23 + rne_div ?V (2 ^ 15)"
    by (simp only: mag_fround rm)
  with R1 R2 show "0x3F7FF000 \<le> mag (fsqrt n)" and "mag (fsqrt n) \<le> 0x3F800000"
    by simp_all
qed

lemma qNaN_positive: "\<not> sign_bit qNaN"
  by (simp add: qNaN_def sign_bit_def)

lemma fsqrt_positive: "\<not> sign_bit n \<Longrightarrow> \<not> sign_bit (fsqrt n)"
  by (simp add: fsqrt_def sign_fround qNaN_positive)

lemma fsqrt_near_one:
  assumes "\<not> sign_bit n" and "0x3F7FF000 \<le> mag n" and "mag n \<le> 0x3F800800"
  shows "\<not> sign_bit (fsqrt n)" and "0x3F7FF000 \<le> mag (fsqrt n)" and "mag (fsqrt n) \<le> 0x3F800800"
proof -
  from assms(1) show "\<not> sign_bit (fsqrt n)" by (rule fsqrt_positive)
  show "0x3F7FF000 \<le> mag (fsqrt n)" and "mag (fsqrt n) \<le> 0x3F800800"
  proof -
    have "0x3F7FF000 \<le> mag (fsqrt n) \<and> mag (fsqrt n) \<le> 0x3F800800"
    proof (cases "mag n < 0x3F800000")
      case True
      from fsqrt_below_one [OF assms(1,2) True] show ?thesis by simp
    next
      case False
      then have "0x3F800000 \<le> mag n" by simp
      from fsqrt_above_one [OF assms(1) this assms(3)] show ?thesis by simp
    qed
    then show "0x3F7FF000 \<le> mag (fsqrt n)" and "mag (fsqrt n) \<le> 0x3F800800" by simp_all
  qed
qed

subsection \<open>Subtracting one from a float near one\<close>

lemma unat_fabsf: "unat (fabsf w) = mag w"
proof -
  have "(0x7FFFFFFF :: 32 word) = mask 31" by (simp add: mask_eq_exp_minus_1)
  then have "fabsf w = take_bit 31 w" by (simp add: fabsf_def take_bit_eq_mask)
  then show ?thesis by (simp add: mag_take_bit)
qed

lemma fabsf_props: "mag (fabsf w) = mag w" "\<not> sign_bit (fabsf w)"
  using mag_lt [of w] by (simp_all add: mag_def [of "fabsf w"] sign_bit_def unat_fabsf)

lemma fle_EPSILON: "fle (fabsf d) EPSILON \<longleftrightarrow> mag d \<le> 0x39800000"
proof -
  have E: "mag EPSILON = 0x39800000" "key EPSILON = 0x39800000"
    by (simp_all add: EPSILON_def key_def sign_bit_def mag_def)
  have "key (fabsf d) = int (mag d)" by (simp add: key_def fabsf_props)
  then show ?thesis by (auto simp: fle_def E is_nan_def fabsf_props)
qed

lemma one_decode: "mant f_one = 2 ^ 23" "expt f_one = - 23" "\<not> sign_bit f_one" "is_finite f_one"
  "mag f_one = 0x3F800000"
  by (simp_all add: f_one_def mant_def expt_def sign_bit_def is_finite_def mag_def)

lemma fneg_one: "sval (fneg f_one) = - (2 ^ 23)" "expt (fneg f_one) = - 23" "is_finite (fneg f_one)"
  "sign_bit (fneg f_one)"
  by (simp_all add: one_decode sval_def sign_fneg)

lemma round_mag_small:
  assumes "M < 2 ^ k" and "- 125 \<le> int k + e" and "int k + e \<le> 100"
  shows "round_mag M e \<le> nat (int k + e + 127) * 2 ^ 23"
proof -
  from bitlen_le [OF assms(1)] have b: "int (bitlen M) \<le> int k" by simp
  with assms(2) have "quantum M e \<le> int k + e - 24" by (simp add: quantum_def)
  then have "nat (quantum M e + 149) \<le> nat (int k + e + 125)" by linarith
  then have "nat (quantum M e + 149) * 2 ^ 23 \<le> nat (int k + e + 125) * (2 ^ 23 :: nat)"
    by (rule mult_le_mono1)
  moreover have "nat (int k + e + 127) = nat (int k + e + 125) + 2" using assms(2) by linarith
  ultimately show ?thesis using round_mag_upper [of M e] by simp
qed

lemma sub_one_above:
  assumes "\<not> sign_bit r" and "0x3F800000 \<le> mag r" and "mag r \<le> 0x3F800800"
  shows "mag (fsub r f_one) \<le> 0x39800000"
proof -
  from assms have norm: "2 ^ 23 \<le> mag r" and fin: "is_finite r" by (simp_all add: is_finite_def)
  from assms(2) have "0x3F800000 div 2 ^ 23 \<le> mag r div 2 ^ 23" by (rule div_le_mono)
  moreover from assms(3) have "mag r div 2 ^ 23 \<le> 0x3F800800 div 2 ^ 23" by (rule div_le_mono)
  ultimately have E: "mag r div 2 ^ 23 = 127" by simp
  with norm have e: "expt r = - 23" by (simp add: expt_def)
  have "mag r = mag r div 2 ^ 23 * 2 ^ 23 + mag r mod 2 ^ 23" by simp
  with E have "mag r = 127 * 2 ^ 23 + mag r mod 2 ^ 23" by simp
  with assms(3) have g: "mag r mod 2 ^ 23 \<le> 2 ^ 11" by simp
  let ?g = "mag r mod 2 ^ 23"
  from norm have m: "mant r = 2 ^ 23 + ?g" by (simp add: mant_def)
  have sv: "sval r * 2 ^ nat (expt r - min (expt r) (expt (fneg f_one)))
            + sval (fneg f_one) * 2 ^ nat (expt (fneg f_one) - min (expt r) (expt (fneg f_one)))
            = int ?g"
    using assms(1) by (simp add: e fneg_one one_decode sval_def m)
  have d: "fsub r f_one = fround_int False (int ?g) (- 23)"
    unfolding fsub_def fadd_finite [OF fin fneg_one(3)] sv using assms(1) by (simp add: e fneg_one one_decode)
  show ?thesis
  proof (cases "?g = 0")
    case True
    with d show ?thesis by (simp add: fround_int_def mk_float_def zero_props)
  next
    case False
    then have d': "fsub r f_one = fround False ?g (- 23)" using d by (simp add: fround_int_def)
    show ?thesis
    proof (cases "?g = 2 ^ 11")
      case True
      have "round_mag (2 ^ 11) (- 23) = 0x39800000"
        by (simp add: round_mag_def quantum_def scale_rne_def)
      with True d' show ?thesis by (simp add: mag_fround)
    next
      case False
      with g have "?g < 2 ^ 11" by simp
      then have "round_mag ?g (- 23) \<le> nat (int 11 + - 23 + 127) * 2 ^ 23"
        by (rule round_mag_small) simp_all
      with d' show ?thesis by (simp add: mag_fround)
    qed
  qed
qed

lemma sub_one_below:
  assumes "\<not> sign_bit r" and "0x3F7FF000 \<le> mag r" and "mag r < 0x3F800000"
  shows "mag (fsub r f_one) \<le> 0x39800000"
proof -
  from assms have norm: "2 ^ 23 \<le> mag r" and fin: "is_finite r" by (simp_all add: is_finite_def)
  from assms(2) have "0x3F7FF000 div 2 ^ 23 \<le> mag r div 2 ^ 23" by (rule div_le_mono)
  moreover from assms(3) have "mag r div 2 ^ 23 < 127" by (simp add: less_mult_imp_div_less)
  ultimately have E: "mag r div 2 ^ 23 = 126" by simp
  with norm have e: "expt r = - 24" by (simp add: expt_def)
  have "mag r = mag r div 2 ^ 23 * 2 ^ 23 + mag r mod 2 ^ 23" by simp
  with E have "mag r = 126 * 2 ^ 23 + mag r mod 2 ^ 23" by simp
  with assms(2) have g1: "2 ^ 23 - 2 ^ 12 \<le> mag r mod 2 ^ 23" by simp
  have g2: "mag r mod 2 ^ 23 < 2 ^ 23" by simp
  let ?h = "2 ^ 23 - mag r mod 2 ^ 23"
  from g1 g2 have h: "0 < ?h" "?h \<le> 2 ^ 12" by simp_all
  from norm have m: "mant r = 2 ^ 23 + mag r mod 2 ^ 23" by (simp add: mant_def)
  have sv: "sval r * 2 ^ nat (expt r - min (expt r) (expt (fneg f_one)))
            + sval (fneg f_one) * 2 ^ nat (expt (fneg f_one) - min (expt r) (expt (fneg f_one)))
            = - int ?h"
    using assms(1) g2 by (simp add: e fneg_one one_decode sval_def m of_nat_diff)
  have d: "fsub r f_one = fround_int False (- int ?h) (- 24)"
    unfolding fsub_def fadd_finite [OF fin fneg_one(3)] sv using assms(1) by (simp add: e fneg_one one_decode)
  have "- int ?h \<noteq> 0" "- int ?h < 0" "nat \<bar>- int ?h\<bar> = ?h" using h(1) by linarith+
  then have "fround_int False (- int ?h) (- 24) = fround True ?h (- 24)"
    unfolding fround_int_def by (simp only: if_False if_True)
  with d have d': "fsub r f_one = fround True ?h (- 24)" by simp
  show ?thesis
  proof (cases "?h = 2 ^ 12")
    case True
    have "round_mag (2 ^ 12) (- 24) = 0x39800000"
      by (simp add: round_mag_def quantum_def scale_rne_def)
    with True d' show ?thesis by (simp add: mag_fround)
  next
    case False
    with h(2) have "?h < 2 ^ 12" by simp
    then have "round_mag ?h (- 24) \<le> nat (int 12 + - 24 + 127) * 2 ^ 23"
      by (rule round_mag_small) simp_all
    with d' show ?thesis by (simp add: mag_fround)
  qed
qed

lemma nearly_equal_one:
  assumes "\<not> sign_bit r" and "0x3F7FF000 \<le> mag r" and "mag r \<le> 0x3F800800"
  shows "nearly_equal ndebug f_one r EPSILON = Some True"
proof -
  have "mag (fsub r f_one) \<le> 0x39800000"
  proof (cases "mag r < 0x3F800000")
    case True
    with assms show ?thesis by (intro sub_one_below)
  next
    case False
    then have "0x3F800000 \<le> mag r" by simp
    with assms show ?thesis by (intro sub_one_above)
  qed
  moreover have "fle 0 EPSILON"
    by (simp add: EPSILON_def fle_def is_nan_def key_def sign_bit_def mag_def)
  ultimately show ?thesis by (simp add: nearly_equal_def nearly_zero_def fle_EPSILON)
qed

section \<open>The real value of a float\<close>

text \<open>
  A rounded result differs from the exact one by at most half a unit in the last place:
  at most \<open>1 / 2 ^ 24\<close> of the exact value, plus \<open>1 / 2 ^ 150\<close> where the result is subnormal.
  The order of the magnitude bits is the order of the absolute values.
\<close>

lemma rne_div_error:
  assumes "even D" and "0 < D"
  shows "2 * M \<le> 2 * (rne_div M D * D) + D" and "2 * (rne_div M D * D) \<le> 2 * M + D"
proof -
  obtain h where D: "D = 2 * h" using assms(1) by (auto elim: evenE)
  then have h: "D div 2 = h" by simp
  have M: "M = M div D * D + M mod D" by simp
  have r: "M mod D < D" using assms(2) by simp
  have up: "(M div D + 1) * D = M div D * D + D" by (simp add: add_mult_distrib)
  show "2 * M \<le> 2 * (rne_div M D * D) + D"
    unfolding rne_div_def h using M r D by (auto simp: up)
  show "2 * (rne_div M D * D) \<le> 2 * M + D"
    unfolding rne_div_def h using M r D by (auto simp: up)
qed

lemma pow2_nat: "0 \<le> k \<Longrightarrow> (2::real) ^ nat k = 2 powi k"
  by (simp add: power_int_nonneg_exp)

lemma pow2_add: "(2::real) powi (a + b) = 2 powi a * 2 powi b"
  by (simp add: power_int_add)

lemma pow2_pos: "0 < (2::real) powi a"
  by (simp add: zero_less_power_int)

lemma pow2_mono: "a \<le> b \<Longrightarrow> (2::real) powi a \<le> 2 powi b"
  by (simp add: power_int_increasing)

lemma scaled_abs:
  fixes p :: real
  assumes "0 < p"
  shows "p * \<bar>r * D - M\<bar> = \<bar>r * (p * D) - M * p\<bar>"
proof -
  have "r * (p * D) - M * p = p * (r * D - M)" by (simp add: algebra_simps)
  then show ?thesis using assms by (simp add: abs_mult)
qed

lemma scale_rne_error:
  "\<bar>real (scale_rne M d) * 2 powi (e + d) - real M * 2 powi e\<bar> \<le> 2 powi (e + d) / 2"
proof (cases "d \<le> 0")
  case True
  then have "real (scale_rne M d) = real M * 2 powi (- d)"
    by (simp add: scale_rne_def pow2_nat)
  then have "real (scale_rne M d) * 2 powi (e + d) = real M * (2 powi (- d) * 2 powi (e + d))"
    by simp
  also have "2 powi (- d) * (2::real) powi (e + d) = 2 powi e"
    using pow2_add [of "- d" "e + d"] by simp
  finally show ?thesis using pow2_pos [of "e + d"] by simp
next
  case False
  let ?D = "2 ^ nat d :: nat"
  let ?r = "rne_div M ?D"
  from False have ev: "even ?D" "0 < ?D" by simp_all
  from False have "0 \<le> d" by simp
  then have D: "real ?D = 2 powi d" by (simp add: pow2_nat)
  have s: "scale_rne M d = ?r" using False by (simp add: scale_rne_def)
  have p: "(2::real) powi (e + d) = 2 powi e * real ?D" unfolding D by (rule pow2_add)
  from rne_div_error [OF ev, of M]
  have "real (2 * M) \<le> real (2 * (?r * ?D) + ?D)" "real (2 * (?r * ?D)) \<le> real (2 * M + ?D)"
    by (simp_all only: of_nat_le_iff)
  then have "\<bar>real ?r * real ?D - real M\<bar> \<le> real ?D / 2"
    by (simp only: of_nat_add of_nat_mult of_nat_numeral) linarith
  then have "2 powi e * \<bar>real ?r * real ?D - real M\<bar> \<le> 2 powi e * (real ?D / 2)"
    using pow2_pos [of e] by (simp add: mult_le_cancel_left_pos)
  moreover have "2 powi e * \<bar>real ?r * real ?D - real M\<bar>
                 = \<bar>real ?r * (2 powi e * real ?D) - real M * 2 powi e\<bar>"
    by (rule scaled_abs [OF pow2_pos])
  ultimately have "\<bar>real ?r * (2 powi e * real ?D) - real M * 2 powi e\<bar>
                    \<le> 2 powi e * (real ?D / 2)"
    by (simp only:)
  then show ?thesis unfolding s p by (simp only: times_divide_eq_right)
qed

lemma scale_rne_ge:
  assumes "M \<noteq> 0" and "d = int (bitlen M) - 24"
  shows "2 ^ 23 \<le> scale_rne M d"
proof (cases "d \<le> 0")
  case True
  with assms(2) bitlen_pos [OF assms(1)] have b: "bitlen M - 1 + nat (- d) = 23" by linarith
  have "(2::nat) ^ 23 = 2 ^ (bitlen M - 1 + nat (- d))" by (simp only: b)
  also have "\<dots> = 2 ^ (bitlen M - 1) * 2 ^ nat (- d)" by (simp only: power_add)
  also have "\<dots> \<le> M * 2 ^ nat (- d)" using bitlen_lower [OF assms(1)] by simp
  finally show ?thesis using True by (simp add: scale_rne_def)
next
  case False
  with assms(2) have b: "bitlen M - 1 = 23 + nat d" by linarith
  have "(2::nat) ^ (bitlen M - 1) = 2 ^ 23 * 2 ^ nat d" by (simp only: b power_add)
  with bitlen_lower [OF assms(1)] have "(2::nat) ^ 23 * 2 ^ nat d \<le> M" by (simp only:)
  then have "2 ^ 23 \<le> M div 2 ^ nat d" by (simp add: less_eq_div_iff_mult_less_eq)
  with rne_div_bounds(1) [of M "2 ^ nat d"] have "2 ^ 23 \<le> rne_div M (2 ^ nat d)" by linarith
  with False show ?thesis by (simp add: scale_rne_def)
qed

lemma decode_subnormal: "mag w < 2 ^ 23 \<Longrightarrow> absval w = real (mag w) * 2 powi (- 149)"
  by (simp add: absval_def mant_def expt_def)

lemma decode_normal:
  assumes "mag w = E * 2 ^ 23 + f" and "f < 2 ^ 23" and "0 < E"
  shows "absval w = real (2 ^ 23 + f) * 2 powi (int E - 150)"
proof -
  from assms have "mag w div 2 ^ 23 = E" "mag w mod 2 ^ 23 = f" "\<not> mag w < 2 ^ 23" by simp_all
  then show ?thesis by (simp add: absval_def mant_def expt_def)
qed

lemma value_of_rounded:
  assumes "M \<noteq> 0" and "mag w = round_mag M e" and "mag w < 0x7F800000"
  shows "absval w = real (scale_rne M (quantum M e - e)) * 2 powi quantum M e"
proof -
  let ?q = "quantum M e"
  let ?A = "nat (?q + 149)"
  let ?r = "scale_rne M (?q - e)"
  have q: "- 149 \<le> ?q" "int (bitlen M) - 24 \<le> ?q - e" by (simp_all add: quantum_def)
  from assms have m: "mag w = ?A * 2 ^ 23 + ?r" by (simp add: round_mag_def min_def split: if_splits)
  have r: "?r \<le> 2 ^ 24" using q(2) by (rule scale_rne_le)
  show ?thesis
  proof (cases "?q = - 149")
    case True
    then have mr: "mag w = ?r" using m by simp
    consider "?r < 2 ^ 23" | "2 ^ 23 \<le> ?r" "?r < 2 ^ 24" | "?r = 2 ^ 24" using r by linarith
    then show ?thesis
    proof cases
      case 1
      with mr True show ?thesis by (simp add: decode_subnormal)
    next
      case 2
      then have "mag w = 1 * 2 ^ 23 + (?r - 2 ^ 23)" "?r - 2 ^ 23 < 2 ^ 23" using mr by simp_all
      then have "absval w = real (2 ^ 23 + (?r - 2 ^ 23)) * 2 powi (int 1 - 150)"
        by (rule decode_normal) simp
      with 2 True show ?thesis by simp
    next
      case 3
      then have "mag w = 2 * 2 ^ 23 + 0" using mr by simp
      then have "absval w = real (2 ^ 23 + 0) * 2 powi (int 2 - 150)"
        by (rule decode_normal) simp_all
      with 3 True show ?thesis by simp
    qed
  next
    case False
    with q(1) have A: "0 < ?A" "int ?A = ?q + 149" by linarith+
    from False have "?q = int (bitlen M) + e - 24" by (simp add: quantum_def max_def split: if_splits)
    then have "?q - e = int (bitlen M) - 24" by simp
    with assms(1) have lo: "2 ^ 23 \<le> ?r" by (rule scale_rne_ge)
    show ?thesis
    proof (cases "?r = 2 ^ 24")
      case True
      then have "mag w = (?A + 2) * 2 ^ 23 + 0" using m by simp
      then have "absval w = real (2 ^ 23 + 0) * 2 powi (int (?A + 2) - 150)"
        by (rule decode_normal) simp_all
      also have "int (?A + 2) - 150 = ?q + 1" using A(2) by simp
      also have "(2::real) powi (?q + 1) = 2 powi ?q * 2" using pow2_add [of ?q 1] by simp
      finally show ?thesis using True by simp
    next
      case False
      with r lo have "mag w = (?A + 1) * 2 ^ 23 + (?r - 2 ^ 23)" "?r - 2 ^ 23 < 2 ^ 23"
        using m by simp_all
      then have "absval w = real (2 ^ 23 + (?r - 2 ^ 23)) * 2 powi (int (?A + 1) - 150)"
        by (rule decode_normal) simp
      also have "int (?A + 1) - 150 = ?q" using A(2) by simp
      finally show ?thesis using lo by simp
    qed
  qed
qed

lemma half_quantum_le:
  assumes "M \<noteq> 0"
  shows "2 powi quantum M e / 2 \<le> real M * 2 powi e / 2 ^ 24 + 1 / 2 ^ 150"
proof (cases "quantum M e = - 149")
  case True
  have "0 \<le> real M * 2 powi e / 2 ^ 24" using pow2_pos [of e] by simp
  moreover have "(2::real) powi (- 149) / 2 = 1 / 2 ^ 150" by (simp add: power_int_minus_divide)
  ultimately show ?thesis using True by simp
next
  case False
  then have q: "quantum M e = int (bitlen M) + e - 24"
    by (simp add: quantum_def max_def split: if_splits)
  from bitlen_pos [OF assms] have b: "int (bitlen M - 1) = int (bitlen M) - 1" by simp
  have "real (2 ^ (bitlen M - 1)) \<le> real M" using bitlen_lower [OF assms] by (simp only: of_nat_le_iff)
  then have "(2::real) ^ (bitlen M - 1) \<le> real M" by (simp only: of_nat_power of_nat_numeral)
  moreover have "(2::real) ^ (bitlen M - 1) = 2 powi int (bitlen M - 1)" by (simp only: power_int_of_nat)
  ultimately have "2 powi (int (bitlen M) - 1) \<le> real M" by (simp only: b)
  then have "2 powi (int (bitlen M) - 1) * 2 powi e \<le> real M * 2 powi e"
    using pow2_pos [of e] by (simp add: mult_le_cancel_right_pos)
  moreover have "(2::real) powi (int (bitlen M) - 1) * 2 powi e = 2 powi quantum M e * 2 ^ 23"
  proof -
    have eq: "int (bitlen M) - 1 + e = quantum M e + 23" using q by simp
    have "(2::real) powi (int (bitlen M) - 1) * 2 powi e = 2 powi (int (bitlen M) - 1 + e)"
      by (simp only: pow2_add)
    also have "\<dots> = 2 powi (quantum M e + 23)" by (simp only: eq)
    also have "\<dots> = 2 powi quantum M e * 2 powi 23" by (simp only: pow2_add)
    finally show ?thesis by simp
  qed
  ultimately have "2 powi quantum M e * 2 ^ 23 \<le> real M * 2 powi e" by simp
  then have "2 powi quantum M e / 2 \<le> real M * 2 powi e / 2 ^ 24" by simp
  then show ?thesis by simp
qed

lemma rounding_error:
  assumes "M \<noteq> 0" and "mag w = round_mag M e" and "mag w < 0x7F800000"
  shows "\<bar>absval w - real M * 2 powi e\<bar> \<le> real M * 2 powi e / 2 ^ 24 + 1 / 2 ^ 150"
proof -
  have "\<bar>real (scale_rne M (quantum M e - e)) * 2 powi (e + (quantum M e - e)) - real M * 2 powi e\<bar>
          \<le> 2 powi (e + (quantum M e - e)) / 2"
    by (rule scale_rne_error)
  then have "\<bar>absval w - real M * 2 powi e\<bar> \<le> 2 powi quantum M e / 2"
    by (simp add: value_of_rounded [OF assms])
  with half_quantum_le [OF assms(1), of e] show ?thesis by linarith
qed

lemma absval_mono:
  assumes "mag x \<le> mag y"
  shows "absval x \<le> absval y"
proof (cases "mag x < 2 ^ 23")
  case True
  show ?thesis
  proof (cases "mag y < 2 ^ 23")
    case True
    with \<open>mag x < 2 ^ 23\<close> assms show ?thesis
      using pow2_pos [of "- 149"] by (simp add: decode_subnormal mult_le_cancel_right_pos del: power_int_numeral_neg_numeral)
  next
    case False
    have "absval x = real (mant x) * 2 powi expt x" by (simp add: absval_def)
    have "real (mant x) \<le> real (mant y)" using True False by (simp add: mant_def)
    moreover have "(2::real) powi expt x \<le> 2 powi expt y"
      using True expt_ge [of y] by (intro pow2_mono) (simp add: expt_def)
    ultimately show ?thesis unfolding absval_def
      using pow2_pos [of "expt x"] by (intro mult_mono) simp_all
  qed
next
  case False
  with assms have ny: "\<not> mag y < 2 ^ 23" by simp
  have le: "mag x div 2 ^ 23 \<le> mag y div 2 ^ 23" using assms by (rule div_le_mono)
  show ?thesis
  proof (cases "mag x div 2 ^ 23 = mag y div 2 ^ 23")
    case True
    have "mag x mod 2 ^ 23 = mag x - mag y div 2 ^ 23 * 2 ^ 23"
      unfolding True [symmetric] by (simp only: minus_div_mult_eq_mod)
    moreover have "mag y mod 2 ^ 23 = mag y - mag y div 2 ^ 23 * 2 ^ 23"
      by (simp only: minus_div_mult_eq_mod)
    ultimately have "mag x mod 2 ^ 23 \<le> mag y mod 2 ^ 23" using assms by (simp only: diff_le_mono)
    then have "real (mant x) \<le> real (mant y)" using False ny by (simp add: mant_def)
    moreover have "expt x = expt y" using True False ny by (simp add: expt_def)
    ultimately show ?thesis unfolding absval_def
      using pow2_pos [of "expt y"] by (simp add: mult_le_cancel_right_pos)
  next
    case F: False
    with le have "mag x div 2 ^ 23 + 1 \<le> mag y div 2 ^ 23" by simp
    then have e: "expt x + 1 \<le> expt y" using False ny by (simp add: expt_def)
    have "mant x < 2 ^ 24" using False by (simp add: mant_def)
    then have "real (mant x) \<le> 2 ^ 24" by simp
    then have "absval x \<le> 2 ^ 24 * 2 powi expt x" unfolding absval_def
      using pow2_pos [of "expt x"] by (simp add: mult_le_cancel_right_pos)
    also have "\<dots> = 2 ^ 23 * 2 powi (expt x + 1)" by (simp add: pow2_add)
    also have "\<dots> \<le> 2 ^ 23 * 2 powi expt y" using pow2_mono [OF e] by simp
    also have "\<dots> \<le> real (mant y) * 2 powi expt y"
    proof -
      have "2 ^ 23 \<le> mant y" using ny by (simp add: mant_def)
      then have "(2::real) ^ 23 \<le> real (mant y)" by (metis of_nat_le_iff of_nat_numeral of_nat_power)
      then show ?thesis using pow2_pos [of "expt y"] by (simp add: mult_le_cancel_right_pos)
    qed
    finally show ?thesis by (simp add: absval_def)
  qed
qed

lemma valof_absval: "\<not> sign_bit w \<Longrightarrow> valof w = absval w"
  by (simp add: valof_def absval_def sval_def)

lemma valof_square: "valof w * valof w = absval w * absval w"
  by (simp add: valof_def absval_def sval_def)

lemma abs_valof: "\<bar>valof w\<bar> = absval w"
  using pow2_pos [of "expt w"] by (simp add: valof_def absval_def sval_def abs_mult)

subsection \<open>The squared norm of a cosine and a sine\<close>

lemma absval_nonneg: "0 \<le> absval x"
  using pow2_pos [of "expt x"] by (simp add: absval_def)

lemma absval_zero: "mag x = 0 \<Longrightarrow> absval x = 0"
  by (simp add: decode_subnormal)

lemma absval_one: "absval f_one = 1"
  by (simp add: absval_def one_decode)

lemma absval_le_one: "mag x \<le> 0x3F800000 \<Longrightarrow> absval x \<le> 1"
  using absval_mono [of x f_one] by (simp add: one_decode absval_one)

lemma absval_product:
  "real (mant x * mant x) * 2 powi (expt x + expt x) = absval x * absval x"
  unfolding absval_def pow2_add of_nat_mult by (simp only: mult_ac)

lemma abs_diff_upper:
  fixes a :: real
  assumes "\<bar>a - C\<bar> \<le> e" and "C \<le> 1" and "e \<le> d"
  shows "a \<le> 1 + d"
  using assms by linarith

lemma abs_sum_le:
  fixes x :: real
  assumes "\<bar>x\<bar> \<le> e" and "\<bar>y\<bar> \<le> e" and "z = x + y"
  shows "\<bar>z\<bar> \<le> e + e"
  using assms by linarith

lemma sum_scale:
  "real (A * 2 ^ p + B * 2 ^ q) * m = real A * (2 ^ p * m) + real B * (2 ^ q * m)"
  by (simp add: algebra_simps)

lemma fmul_self_error:
  assumes "mag c \<le> 0x3F800000"
  shows "is_finite (fmul c c)" and "\<not> sign_bit (fmul c c)"
    and "\<bar>absval (fmul c c) - absval c * absval c\<bar> \<le> 1 / 2 ^ 24 + 1 / 2 ^ 150"
proof -
  let ?M = "mant c * mant c"
  let ?e = "expt c + expt c"
  from assms have fin: "is_finite c" by (simp add: is_finite_def)
  then have f: "fmul c c = fround False ?M ?e" by (simp add: fmul_finite)
  show fin2: "is_finite (fmul c c)" using assms assms by (rule fmul_finite_le_one)
  show "\<not> sign_bit (fmul c c)" by (simp add: f sign_fround)
  have m: "mag (fmul c c) = round_mag ?M ?e" by (simp add: f mag_fround)
  have le: "absval c * absval c \<le> 1"
    using absval_le_one [OF assms] absval_nonneg [of c] by (simp add: mult_le_one)
  show "\<bar>absval (fmul c c) - absval c * absval c\<bar> \<le> 1 / 2 ^ 24 + 1 / 2 ^ 150"
  proof (cases "?M = 0")
    case True
    then have "mag (fmul c c) = 0" using m by (simp add: round_mag_def)
    then have "absval (fmul c c) = 0" by (rule absval_zero)
    moreover from True have "absval c = 0" by (simp add: absval_def)
    ultimately show ?thesis by simp
  next
    case False
    from fin2 have "mag (fmul c c) < 0x7F800000" by (simp add: is_finite_def)
    with False m have "\<bar>absval (fmul c c) - real ?M * 2 powi ?e\<bar>
                        \<le> real ?M * 2 powi ?e / 2 ^ 24 + 1 / 2 ^ 150"
      by (intro rounding_error)
    then have "\<bar>absval (fmul c c) - absval c * absval c\<bar>
                 \<le> absval c * absval c / 2 ^ 24 + 1 / 2 ^ 150"
      by (simp only: absval_product)
    with le show ?thesis by simp
  qed
qed

lemma aligned_sum:
  "real (mant x * 2 ^ nat (expt x - min (expt x) (expt y))
         + mant y * 2 ^ nat (expt y - min (expt x) (expt y))) * 2 powi min (expt x) (expt y)
     = absval x + absval y"
proof -
  let ?m = "min (expt x) (expt y)"
  have a: "(2::real) ^ nat (expt x - ?m) * 2 powi ?m = 2 powi expt x"
    using pow2_add [of "expt x - ?m" ?m] by (simp add: pow2_nat)
  have b: "(2::real) ^ nat (expt y - ?m) * 2 powi ?m = 2 powi expt y"
    using pow2_add [of "expt y - ?m" ?m] by (simp add: pow2_nat)
  show ?thesis unfolding sum_scale a b absval_def by (rule refl)
qed

lemma fadd_nonneg_error:
  assumes "is_finite x" and "is_finite y" and "\<not> sign_bit x" and "\<not> sign_bit y"
    and "absval x + absval y < 4"
  shows "is_finite (fadd x y)"
    and "\<bar>absval (fadd x y) - (absval x + absval y)\<bar> \<le> (absval x + absval y) / 2 ^ 24 + 1 / 2 ^ 150"
proof -
  define m where "m = min (expt x) (expt y)"
  define S where "S = mant x * 2 ^ nat (expt x - m) + mant y * 2 ^ nat (expt y - m)"
  have "sval x * 2 ^ nat (expt x - m) + sval y * 2 ^ nat (expt y - m) = int S"
    using assms(3,4) by (simp add: sval_def S_def)
  with fadd_finite [OF assms(1,2)] assms(3,4)
  have f: "fadd x y = fround_int False (int S) m" unfolding m_def by simp
  have v: "real S * 2 powi m = absval x + absval y" unfolding S_def m_def by (rule aligned_sum)
  have "is_finite (fadd x y)
        \<and> \<bar>absval (fadd x y) - (absval x + absval y)\<bar> \<le> (absval x + absval y) / 2 ^ 24 + 1 / 2 ^ 150"
  proof (cases "S = 0")
    case True
    then have "fadd x y = 0" using f by (simp add: fround_int_def mk_float_def)
    moreover from True v have "absval x + absval y = 0" by simp
    ultimately show ?thesis by (simp add: zero_props absval_zero)
  next
    case False
    then have f': "fadd x y = fround False S m" using f fround_int_pos [of S False m] by simp
    then have mg: "mag (fadd x y) = round_mag S m" by (simp add: mag_fround)
    have S1: "1 \<le> real S" using False by simp
    have lt: "real S * 2 powi m < 4" using assms(5) v by simp
    have m1: "m \<le> 1"
    proof (rule ccontr)
      assume "\<not> m \<le> 1"
      then have "2 \<le> m" by simp
      then have "(2::real) powi 2 \<le> 2 powi m" by (rule pow2_mono)
      then have "4 \<le> 1 * (2::real) powi m" by simp
      also have "\<dots> \<le> real S * 2 powi m"
        using S1 pow2_pos [of m] by (intro mult_right_mono) simp_all
      finally show False using lt by simp
    qed
    have "(2::real) powi (2 - m) * 2 powi m = 4" using pow2_add [of "2 - m" m] by simp
    with lt have "real S * 2 powi m < 2 powi (2 - m) * 2 powi m" by simp
    then have "real S < 2 powi (2 - m)" using pow2_pos [of m] by (simp only: mult_less_cancel_right_pos)
    also have "\<dots> = 2 ^ nat (2 - m)" using m1 by (simp add: pow2_nat)
    finally have "real S < real (2 ^ nat (2 - m))" by simp
    then have "S < 2 ^ nat (2 - m)" by (simp only: of_nat_less_iff)
    then have "bitlen S \<le> nat (2 - m)" by (rule bitlen_le)
    then have "quantum S m \<le> - 22" using m1 by (simp add: quantum_def)
    then have "nat (quantum S m + 149) \<le> 127" by simp
    then have "nat (quantum S m + 149) * 2 ^ 23 \<le> 127 * (2 ^ 23 :: nat)" by (rule mult_le_mono1)
    with round_mag_upper [of S m] have fin: "mag (fadd x y) < 0x7F800000" using mg by simp
    from rounding_error [OF False mg fin] show ?thesis using fin by (simp add: v is_finite_def)
  qed
  then show "is_finite (fadd x y)"
    and "\<bar>absval (fadd x y) - (absval x + absval y)\<bar> \<le> (absval x + absval y) / 2 ^ 24 + 1 / 2 ^ 150"
    by simp_all
qed

lemma abs_chain:
  fixes n :: real
  assumes "\<bar>a - C\<bar> \<le> e" and "\<bar>b - S\<bar> \<le> e" and "\<bar>n - (a + b)\<bar> \<le> t"
  shows "\<bar>n - (C + S)\<bar> \<le> t + 2 * e"
  using assms by linarith

lemma squared_norm_error:
  assumes "mag c \<le> 0x3F800000" and "mag s \<le> 0x3F800000"
  shows "\<bar>absval (fadd (fmul c c) (fmul s s)) - (valof c * valof c + valof s * valof s)\<bar>
           \<le> 1 / 2 ^ 21"
proof -
  let ?a = "absval (fmul c c)" and ?b = "absval (fmul s s)"
  let ?C = "absval c * absval c" and ?S = "absval s * absval s"
  note ec = fmul_self_error [OF assms(1)] and es = fmul_self_error [OF assms(2)]
  have C: "0 \<le> ?C" "?C \<le> 1"
    using absval_le_one [OF assms(1)] absval_nonneg [of c] by (simp_all add: mult_le_one)
  have S: "0 \<le> ?S" "?S \<le> 1"
    using absval_le_one [OF assms(2)] absval_nonneg [of s] by (simp_all add: mult_le_one)
  have small: "(1::real) / 2 ^ 24 + 1 / 2 ^ 150 \<le> 1 / 2 ^ 23" by simp
  from ec(3) C(2) small have a: "?a \<le> 1 + 1 / 2 ^ 23" by (rule abs_diff_upper)
  from es(3) S(2) small have b: "?b \<le> 1 + 1 / 2 ^ 23" by (rule abs_diff_upper)
  have "(1::real) + 1 / 2 ^ 23 < 2" by simp
  with a b have lt: "?a + ?b < 4" by linarith
  from fadd_nonneg_error(2) [OF ec(1) es(1) ec(2) es(2) lt]
  have "\<bar>absval (fadd (fmul c c) (fmul s s)) - (?a + ?b)\<bar> \<le> (?a + ?b) / 2 ^ 24 + 1 / 2 ^ 150" .
  moreover have "(?a + ?b) / 2 ^ 24 \<le> 4 / 2 ^ 24" using lt by simp
  ultimately have "\<bar>absval (fadd (fmul c c) (fmul s s)) - (?a + ?b)\<bar> \<le> 4 / 2 ^ 24 + 1 / 2 ^ 150"
    by linarith
  with ec(3) es(3) have "\<bar>absval (fadd (fmul c c) (fmul s s)) - (?C + ?S)\<bar>
                           \<le> 4 / 2 ^ 24 + 1 / 2 ^ 150 + 2 * (1 / 2 ^ 24 + 1 / 2 ^ 150)"
    by (rule abs_chain)
  also have "\<dots> \<le> 1 / 2 ^ 21" by simp
  finally show ?thesis by (simp only: valof_square)
qed

lemma mag_near_one:
  assumes "\<bar>absval n - 1\<bar> \<le> 1 / 2 ^ 12"
  shows "0x3F7FF000 \<le> mag n" and "mag n \<le> 0x3F800800"
proof -
  show "0x3F7FF000 \<le> mag n"
  proof (rule ccontr)
    assume "\<not> 0x3F7FF000 \<le> mag n"
    then have "mag n \<le> mag (0x3F7FEFFF :: float32)" by (simp add: mag_def [of "0x3F7FEFFF"])
    then have "absval n \<le> absval (0x3F7FEFFF :: float32)" by (rule absval_mono)
    also have "\<dots> < 1 - 1 / 2 ^ 12" by (simp add: absval_def mant_def expt_def mag_def)
    finally show False using assms by (simp add: abs_le_iff)
  qed
  show "mag n \<le> 0x3F800800"
  proof (rule ccontr)
    assume "\<not> mag n \<le> 0x3F800800"
    then have "mag (0x3F800801 :: float32) \<le> mag n" by (simp add: mag_def [of "0x3F800801"])
    then have "absval (0x3F800801 :: float32) \<le> absval n" by (rule absval_mono)
    moreover have "1 + 1 / 2 ^ 12 < absval (0x3F800801 :: float32)"
      by (simp add: absval_def mant_def expt_def mag_def)
    ultimately show False using assms by (simp add: abs_le_iff)
  qed
qed

lemma unit_circle_error:
  fixes C S :: real
  assumes "\<bar>C\<bar> \<le> 1" and "\<bar>S\<bar> \<le> 1"
    and "\<bar>C - cos \<theta>\<bar> \<le> 1 / 2 ^ 20" and "\<bar>S - sin \<theta>\<bar> \<le> 1 / 2 ^ 20"
  shows "\<bar>C * C + S * S - 1\<bar> \<le> 1 / 2 ^ 18"
proof -
  have 1: "cos \<theta> * cos \<theta> + sin \<theta> * sin \<theta> = 1"
    using sin_cos_squared_add3 [of \<theta>] by simp
  have c: "\<bar>C + cos \<theta>\<bar> \<le> 2" using assms(1) abs_cos_le_one [of \<theta>] by linarith
  have s: "\<bar>S + sin \<theta>\<bar> \<le> 2" using assms(2) abs_sin_le_one [of \<theta>] by linarith
  have "\<bar>(C - cos \<theta>) * (C + cos \<theta>)\<bar> \<le> 1 / 2 ^ 20 * 2"
    unfolding abs_mult using assms(3) c by (intro mult_mono) simp_all
  moreover have "\<bar>(S - sin \<theta>) * (S + sin \<theta>)\<bar> \<le> 1 / 2 ^ 20 * 2"
    unfolding abs_mult using assms(4) s by (intro mult_mono) simp_all
  moreover have "C * C + S * S - 1 = (C - cos \<theta>) * (C + cos \<theta>) + (S - sin \<theta>) * (S + sin \<theta>)"
    using 1 by (simp add: algebra_simps)
  ultimately have "\<bar>C * C + S * S - 1\<bar> \<le> 1 / 2 ^ 20 * 2 + 1 / 2 ^ 20 * 2" by (rule abs_sum_le)
  also have "\<dots> = 1 / 2 ^ 18" by simp
  finally show ?thesis .
qed

lemma rotation_squared_norm:
  assumes "mag c \<le> 0x3F800000" and "mag s \<le> 0x3F800000"
    and "\<bar>valof c - cos \<theta>\<bar> \<le> 1 / 2 ^ 20" and "\<bar>valof s - sin \<theta>\<bar> \<le> 1 / 2 ^ 20"
  shows "0x3F7FF000 \<le> mag (fadd (fmul c c) (fmul s s))"
    and "mag (fadd (fmul c c) (fmul s s)) \<le> 0x3F800800"
proof -
  have "\<bar>valof c\<bar> \<le> 1" "\<bar>valof s\<bar> \<le> 1"
    using absval_le_one [OF assms(1)] absval_le_one [OF assms(2)] by (simp_all add: abs_valof)
  then have "\<bar>valof c * valof c + valof s * valof s - 1\<bar> \<le> 1 / 2 ^ 18"
    using assms(3,4) by (rule unit_circle_error)
  with squared_norm_error [OF assms(1,2)]
  have "\<bar>absval (fadd (fmul c c) (fmul s s)) - 1\<bar> \<le> 1 / 2 ^ 21 + 1 / 2 ^ 18" by linarith
  then have "\<bar>absval (fadd (fmul c c) (fmul s s)) - 1\<bar> \<le> 1 / 2 ^ 12" by simp
  then show "0x3F7FF000 \<le> mag (fadd (fmul c c) (fmul s s))"
    and "mag (fadd (fmul c c) (fmul s s)) \<le> 0x3F800800"
    by (rule mag_near_one)+
qed

section \<open>Arithmetic on small integers is exact\<close>







lemma float_of_nat_0: "float_of_nat 0 = 0"
  by (simp add: float_of_nat_def fround_def round_mag_def mk_float_def)
















subsection \<open>findMaxScale of a scale by small integers\<close>








section \<open>findMaxScale: rotations\<close>

lemma squared_norm_nonneg:
  assumes "mag c \<le> 0x3F800000" and "mag s \<le> 0x3F800000"
  shows "\<not> sign_bit (fadd (fmul c c) (fmul s s))"
proof -
  from assms have "\<not> is_nan c" "\<not> is_nan s" by (simp_all add: is_nan_def)
  then show ?thesis using fadd_nonneg [OF fmul_self_nonneg fmul_self_nonneg] by blast
qed

lemma findMaxScale_exact_rotation: "findMaxScale_exact (fromRotation_exact \<theta>) = 1"
proof -
  have n: "cos \<theta> * cos \<theta> + sin \<theta> * sin \<theta> = 1"
    using sin_cos_squared_add3 [of \<theta>] by (simp add: add.commute)
  then have n': "sin \<theta> * sin \<theta> + cos \<theta> * cos \<theta> = 1" by (simp add: add.commute)
  show ?thesis
    by (simp add: fromRotation_exact_def eigen_max_exact_def clamp_scale_exact_def n n')
qed

lemma findMaxScale_exact_rot90Scale:
  "findMaxScale_exact (multiply_exact (fromScale_exact (1 / 4) (1 / 2)) (fromRotation_exact (pi / 2)))
     = 1 / 2"
proof -
  have m: "multiply_exact (fromScale_exact (1 / 4) (1 / 2)) (fromRotation_exact (pi / 2))
             = Mat2D 0 (1 / 2) (- (1 / 4)) 0 0 0"
    by (simp add: fromScale_exact_def fromRotation_exact_def)
  have "sqrt (9 / 256 :: real) = 3 / 16" by (rule real_sqrt_unique) (simp_all add: power2_eq_square)
  then have e: "eigen_max_exact (1 / 4) 0 (1 / 16) = 1 / 4" by (simp add: eigen_max_exact_def)
  have "sqrt (1 / 4 :: real) = 1 / 2"
    by (rule real_sqrt_unique) (simp_all add: power2_eq_square)
  then have c: "clamp_scale_exact (1 / 4) = 1 / 2" by (simp add: clamp_scale_exact_def)
  have f: "findMaxScale_exact (Mat2D 0 (1 / 2) (- (1 / 4)) 0 0 0)
             = clamp_scale_exact (eigen_max_exact (1 / 4) 0 (1 / 16))"
    by simp
  show ?thesis unfolding m f e by (rule c)
qed

lemma findMaxScale_rot90Scale:
  "findMaxScale (multiply (fromScale 0x3E800000 0x3F000000) (fromRotation 0xB33BBD2E f_one))
     = 0x3F000000"
proof -
  have "multiply (fromScale 0x3E800000 0x3F000000) (fromRotation 0xB33BBD2E f_one)
          = Mat2D 0xB23BBD2E 0x3F000000 0xBE800000 0xB2BBBD2E 0 0"
    by (simp add: fromScale_def fromRotation_def f_one_def arith_eval)
  moreover have "findMaxScale (Mat2D 0xB23BBD2E 0x3F000000 0xBE800000 0xB2BBBD2E 0 0) = 0x3F000000"
    by (simp add: fms_eval)
  ultimately show ?thesis by simp
qed

lemma rotation_nearly_one:
  assumes c: "mag c \<le> 0x3F800000" and s: "mag s \<le> 0x3F800000"
    and lo: "0x3F7FF000 \<le> mag (fadd (fmul c c) (fmul s s))"
    and hi: "mag (fadd (fmul c c) (fmul s s)) \<le> 0x3F800800"
  shows "nearly_equal ndebug f_one (findMaxScale (fromRotation c s)) EPSILON = Some True"
proof -
  let ?n = "fadd (fmul c c) (fmul s s)"
  have pos: "\<not> sign_bit ?n" using c s by (rule squared_norm_nonneg)
  from lo hi have "0x3F000000 \<le> mag ?n" "mag ?n \<le> 0x40000000" by simp_all
  with c s pos have "findMaxScale (Mat2D c s (fneg s) c 0 0) = fsqrt ?n"
    by (intro rotation_matrix_sqrt)
  then have "findMaxScale (fromRotation c s) = fsqrt ?n" by (simp add: fromRotation_def)
  moreover have "nearly_equal ndebug f_one (fsqrt ?n) EPSILON = Some True"
    using fsqrt_near_one [OF pos lo hi] by (intro nearly_equal_one)
  ultimately show ?thesis by simp
qed

text \<open>
  The rotation of the test, by 128 degrees: the cosine is \<open>0xBF1D9BFD\<close>, the sine
  \<open>0x3F49BB13\<close>, and their squared norm rounds to exactly 1.
\<close>

lemma rotate_128_degrees:
  "nearly_equal ndebug f_one (findMaxScale (fromRotation 0xBF1D9BFD 0x3F49BB13)) EPSILON = Some True"
proof -
  have m: "mag (0xBF1D9BFD :: float32) \<le> 0x3F800000" "mag (0x3F49BB13 :: float32) \<le> 0x3F800000"
    by (simp_all add: mag_def)
  have n: "fadd (fmul 0xBF1D9BFD 0xBF1D9BFD) (fmul 0x3F49BB13 0x3F49BB13) = 0x3F800000"
    by (simp add: arith_eval)
  have r: "0x3F7FF000 \<le> mag (0x3F800000 :: float32)" "mag (0x3F800000 :: float32) \<le> 0x3F800800"
    by (simp_all add: mag_def)
  show ?thesis using m r by (intro rotation_nearly_one) (simp_all only: n)
qed

text \<open>
  Claim C5. In exact arithmetic \<open>findMaxScale\<close> of the rotation by any angle \<open>\<theta>\<close> is 1.
  In binary32, let \<open>c\<close> and \<open>s\<close> be the floats the C library returns for the cosine and the
  sine of \<open>\<theta>\<close>: when neither exceeds 1 in magnitude and each is within \<open>1 / 2 ^ 20\<close> of
  the real cosine and sine, the check \<open>nearly_equal(1, findMaxScale(), EPSILON)\<close> of the test
  succeeds, with the assertion compiled in or not. The composition of \<open>Scale(1/4, 1/2)\<close>
  with the rotation by a right angle has \<open>findMaxScale\<close> exactly 1/2: in exact arithmetic,
  and in binary32 with the cosine \<open>0xB33BBD2E\<close> (about \<open>-4.37e-8\<close>) and the sine 1 of the
  float \<open>PI / 2\<close>.
\<close>

theorem findMaxScale_rotation:
  "findMaxScale_exact (fromRotation_exact \<theta>) = 1
   \<and> (mag c \<le> 0x3F800000 \<and> mag s \<le> 0x3F800000
        \<and> \<bar>valof c - cos \<theta>\<bar> \<le> 1 / 2 ^ 20 \<and> \<bar>valof s - sin \<theta>\<bar> \<le> 1 / 2 ^ 20
      \<longrightarrow> nearly_equal ndebug f_one (findMaxScale (fromRotation c s)) EPSILON = Some True)
   \<and> findMaxScale_exact
         (multiply_exact (fromScale_exact (1 / 4) (1 / 2)) (fromRotation_exact (pi / 2))) = 1 / 2
   \<and> findMaxScale (multiply (fromScale 0x3E800000 0x3F000000) (fromRotation 0xB33BBD2E f_one))
       = 0x3F000000"
proof -
  have "nearly_equal ndebug f_one (findMaxScale (fromRotation c s)) EPSILON = Some True"
    if c: "mag c \<le> 0x3F800000" and s: "mag s \<le> 0x3F800000"
      and "\<bar>valof c - cos \<theta>\<bar> \<le> 1 / 2 ^ 20" and "\<bar>valof s - sin \<theta>\<bar> \<le> 1 / 2 ^ 20"
    using c s rotation_squared_norm [OF that] by (rule rotation_nearly_one)
  then show ?thesis
    using findMaxScale_exact_rotation findMaxScale_exact_rot90Scale findMaxScale_rot90Scale
    by blast
qed

text \<open>
  The rotation by a right angle, with the cosine and the sine of the float \<open>PI / 2\<close>.
\<close>

theorem findMaxScale_rotation_witness:
  "mag (0xB33BBD2E :: float32) \<le> 0x3F800000 \<and> mag f_one \<le> 0x3F800000
   \<and> \<bar>valof 0xB33BBD2E - cos (pi / 2)\<bar> \<le> 1 / 2 ^ 20
   \<and> \<bar>valof f_one - sin (pi / 2)\<bar> \<le> 1 / 2 ^ 20
   \<and> nearly_equal False f_one (findMaxScale (fromRotation 0xB33BBD2E f_one)) EPSILON = Some True"
proof -
  have m: "mag (0xB33BBD2E :: float32) \<le> 0x3F800000" "mag f_one \<le> 0x3F800000"
    by (simp_all add: mag_def f_one_def)
  have c: "\<bar>valof 0xB33BBD2E - cos (pi / 2)\<bar> \<le> 1 / 2 ^ 20"
    by (simp add: valof_def sval_def mant_def expt_def mag_def sign_bit_def)
  have s: "\<bar>valof f_one - sin (pi / 2)\<bar> \<le> 1 / 2 ^ 20"
    by (simp add: valof_def sval_def mant_def expt_def mag_def sign_bit_def f_one_def)
  show ?thesis
    using findMaxScale_rotation [where c = "0xB33BBD2E" and s = f_one and \<theta> = "pi / 2"
        and ndebug = False] m c s
    by blast
qed

section \<open>findMaxScale: the identity and pure scales\<close>





section \<open>findMaxScale is the largest stretch\<close>

text \<open>
  The quadratic form \<open>|M v|\<^sup>2 = S00 x\<^sup>2 + 2 S01 x y + S11 y\<^sup>2\<close> of a unit vector \<open>v = (x, y)\<close> is at
  most the larger eigenvalue of \<open>S\<close>, and a unit eigenvector attains it.
\<close>

lemma determinant_multiply:
  "determinant_exact (multiply_exact A B) = determinant_exact A * determinant_exact B"
  by (cases A; cases B) (simp add: algebra_simps)



lemma discriminant_sum_of_squares:
  fixes s00 s01 s11 :: real
  shows "(s00 + s11) * (s00 + s11) - 4 * (s00 * s11 - s01 * s01) = (s00 - s11)\<^sup>2 + (2 * s01)\<^sup>2"
  by (simp add: power2_eq_square algebra_simps)

lemma discriminant_nonneg:
  fixes s00 s01 s11 :: real
  shows "0 \<le> (s00 + s11) * (s00 + s11) - 4 * (s00 * s11 - s01 * s01)"
  unfolding discriminant_sum_of_squares by simp




lemma eigen_max_exact_ge:
  "(s00 + s11) / 2 \<le> eigen_max_exact s00 s01 s11"
  unfolding eigen_max_exact_def using discriminant_nonneg [of s00 s11 s01] by simp

lemma gram_quadratic_form:
  fixes a b c d x y :: real
  shows "(a * x + c * y) * (a * x + c * y) + (b * x + d * y) * (b * x + d * y)
         = (a * a + b * b) * (x * x) + 2 * (a * c + b * d) * (x * y) + (c * c + d * d) * (y * y)"
  by (simp add: algebra_simps)

lemma findMaxScale_exact_sqrt:
  "findMaxScale_exact (Mat2D a b c d tx ty)
     = sqrt (eigen_max_exact (a * a + b * b) (a * c + b * d) (c * c + d * d))"
proof -
  have "0 \<le> (a * a + b * b + (c * c + d * d)) / 2" by simp
  with eigen_max_exact_ge [of "a * a + b * b" "c * c + d * d" "a * c + b * d"]
  have "0 \<le> eigen_max_exact (a * a + b * b) (a * c + b * d) (c * c + d * d)" by linarith
  then show ?thesis by (simp add: clamp_scale_exact_def)
qed



lemma characteristic_equation:
  fixes s00 s01 s11 :: real
  defines "l \<equiv> eigen_max_exact s00 s01 s11"
  shows "l * l - (s00 + s11) * l + (s00 * s11 - s01 * s01) = 0"
proof -
  let ?D = "(s00 + s11) * (s00 + s11) - 4 * (s00 * s11 - s01 * s01)"
  have r: "sqrt ?D * sqrt ?D = ?D" using discriminant_nonneg [of s00 s11 s01] by simp
  have l: "2 * l = (s00 + s11) + sqrt ?D" by (simp add: l_def eigen_max_exact_def)
  have "4 * (l * l - (s00 + s11) * l + (s00 * s11 - s01 * s01))
        = (2 * l) * (2 * l) - 2 * (s00 + s11) * (2 * l) + 4 * (s00 * s11 - s01 * s01)"
    by (simp add: algebra_simps)
  also have "\<dots> = sqrt ?D * sqrt ?D - ?D" unfolding l by (simp add: algebra_simps)
  finally show ?thesis using r by simp
qed

lemma eigenvector_form:
  fixes s00 s01 s11 l :: real
  assumes "l * l - (s00 + s11) * l + (s00 * s11 - s01 * s01) = 0"
  shows "s00 * ((l - s11) * (l - s11)) + 2 * s01 * ((l - s11) * s01) + s11 * (s01 * s01)
         = l * ((l - s11) * (l - s11) + s01 * s01)"
proof -
  have "s00 * ((l - s11) * (l - s11)) + 2 * s01 * ((l - s11) * s01) + s11 * (s01 * s01)
        - l * ((l - s11) * (l - s11) + s01 * s01)
        = - (l - s11) * (l * l - (s00 + s11) * l + (s00 * s11 - s01 * s01))"
    by (simp add: algebra_simps)
  with assms show ?thesis by simp
qed

lemma quadratic_form_attained:
  fixes s00 s01 s11 :: real
  shows "\<exists>x y. x * x + y * y = 1
           \<and> s00 * (x * x) + 2 * s01 * (x * y) + s11 * (y * y) = eigen_max_exact s00 s01 s11"
proof -
  define l where "l = eigen_max_exact s00 s01 s11"
  define v where "v = l - s11"
  define n2 where "n2 = v * v + s01 * s01"
  have char: "l * l - (s00 + s11) * l + (s00 * s11 - s01 * s01) = 0"
    unfolding l_def by (rule characteristic_equation)
  have form: "s00 * (v * v) + 2 * s01 * (v * s01) + s11 * (s01 * s01) = l * n2"
    unfolding v_def n2_def by (rule eigenvector_form [OF char])
  have "\<exists>x y. x * x + y * y = 1 \<and> s00 * (x * x) + 2 * s01 * (x * y) + s11 * (y * y) = l"
  proof (cases "n2 = 0")
    case True
    have "0 \<le> v * v" "0 \<le> s01 * s01" by simp_all
    with True have "v * v = 0" "s01 * s01 = 0" unfolding n2_def by linarith+
    then have "l = s11" "s01 = 0" by (simp_all add: v_def)
    then have "(0::real) * 0 + 1 * 1 = 1 \<and> s00 * (0 * 0) + 2 * s01 * (0 * 1) + s11 * (1 * 1) = l"
      by simp
    then show ?thesis by blast
  next
    case False
    have "0 \<le> n2" by (simp add: n2_def)
    with False have pos: "0 < n2" by simp
    define n where "n = sqrt n2"
    have n: "n * n = n2" "0 < n" using pos by (simp_all add: n_def)
    have xx: "(v / n) * (v / n) = v * v / n2" "(v / n) * (s01 / n) = v * s01 / n2"
      "(s01 / n) * (s01 / n) = s01 * s01 / n2"
      by (simp_all add: n(1) [symmetric])
    have "v * v / n2 + s01 * s01 / n2 = (v * v + s01 * s01) / n2"
      by (simp only: add_divide_distrib)
    also have "\<dots> = n2 / n2" by (simp only: n2_def)
    also have "\<dots> = 1" using pos by simp
    finally have 1: "(v / n) * (v / n) + (s01 / n) * (s01 / n) = 1" by (simp only: xx)
    have "s00 * ((v / n) * (v / n)) + 2 * s01 * ((v / n) * (s01 / n)) + s11 * ((s01 / n) * (s01 / n))
          = (s00 * (v * v) + 2 * s01 * (v * s01) + s11 * (s01 * s01)) / n2"
      unfolding xx by (simp add: add_divide_distrib)
    also have "\<dots> = l * n2 / n2" by (simp only: form)
    also have "\<dots> = l" using pos by simp
    finally show ?thesis using 1 by blast
  qed
  then show ?thesis by (simp only: l_def)
qed

lemma max_stretch_attained:
  "\<exists>x y. x * x + y * y = 1 \<and> length_exact (transform_exact M (x, y)) = findMaxScale_exact M"
proof (cases M)
  case (Mat2D a b c d tx ty)
  from quadratic_form_attained [of "a * a + b * b" "a * c + b * d" "c * c + d * d"]
  obtain x y where "x * x + y * y = 1"
    and "(a * a + b * b) * (x * x) + 2 * (a * c + b * d) * (x * y) + (c * c + d * d) * (y * y)
         = eigen_max_exact (a * a + b * b) (a * c + b * d) (c * c + d * d)"
    by blast
  then have "x * x + y * y = 1 \<and> length_exact (transform_exact M (x, y)) = findMaxScale_exact M"
    unfolding Mat2D findMaxScale_exact_sqrt transform_exact.simps length_exact.simps
      gram_quadratic_form
    by simp
  then show ?thesis by blast
qed






lemma invert_exact_inverse:
  assumes "invert_exact m = Some m'"
  shows "multiply_exact m m' = identity_exact" and "invertible_exact m'"
proof -
  obtain a b c d tx ty where m: "m = Mat2D a b c d tx ty" by (cases m)
  define D where "D = a * d - b * c"
  from assms have D: "D \<noteq> 0"
    and m': "m' = Mat2D (d / D) (- b / D) (- c / D) (a / D) ((c * ty - d * tx) / D) ((b * tx - a * ty) / D)"
    by (simp_all add: m D_def split: if_splits)
  have 1: "a * (d / D) + c * (- b / D) = 1"
  proof -
    have "a * (d / D) + c * (- b / D) = (a * d - b * c) / D" by (simp add: diff_divide_distrib algebra_simps)
    then show ?thesis using D by (simp add: D_def)
  qed
  have 2: "b * (- c / D) + d * (a / D) = 1"
  proof -
    have "b * (- c / D) + d * (a / D) = (a * d - b * c) / D" by (simp add: diff_divide_distrib algebra_simps)
    then show ?thesis using D by (simp add: D_def)
  qed
  have 3: "b * (d / D) + d * (- b / D) = 0" "a * (- c / D) + c * (a / D) = 0" by simp_all
  have 4: "a * ((c * ty - d * tx) / D) + c * ((b * tx - a * ty) / D) + tx = 0"
  proof -
    have "a * ((c * ty - d * tx) / D) + c * ((b * tx - a * ty) / D) = - (tx * (a * d - b * c)) / D"
      by (simp add: add_divide_distrib [symmetric] algebra_simps)
    then show ?thesis using D by (simp add: D_def)
  qed
  have 5: "b * ((c * ty - d * tx) / D) + d * ((b * tx - a * ty) / D) + ty = 0"
  proof -
    have "b * ((c * ty - d * tx) / D) + d * ((b * tx - a * ty) / D) = - (ty * (a * d - b * c)) / D"
      by (simp add: add_divide_distrib [symmetric] algebra_simps)
    then show ?thesis using D by (simp add: D_def)
  qed
  show e: "multiply_exact m m' = identity_exact"
    unfolding m m' multiply_exact.simps identity_exact_def 1 2 3 4 5 by (rule refl)
  have "determinant_exact m * determinant_exact m' = 1"
    unfolding determinant_multiply [symmetric] e by (simp add: identity_exact_def)
  then show "invertible_exact m'" unfolding invertible_exact_def by auto
qed



end
